theory Spec2Isabelle
  imports Main "HOL-Library.Word"
begin

section \<open>Data model of hyperscanner.c\<close>

text \<open>
  The embedding follows \<^verbatim>\<open>src/hypergrep/lib/c/hyperscanner.c\<close>. Bytes are \<open>char\<close>,
  a C buffer is a \<open>string\<close> of its bytes, \<open>unsigned int\<close> and \<open>int\<close> are \<open>32 word\<close>
  (read with \<open>sint\<close> where the C type is signed), \<open>unsigned long long\<close> is \<open>64 word\<close>.
  \<open>buffer_size\<close> is only compared and converted, never computed with, and is an \<open>int\<close>.
\<close>

abbreviation NUL :: char where
  "NUL \<equiv> CHR 0x00"

abbreviation newline :: char where
  "newline \<equiv> CHR 0x0A"

text \<open>The return codes of \<^verbatim>\<open>enum hyperscanner_ret\<close>; 0 is success.\<close>

abbreviation (input) HYPERSCANNER_COMPILE_MEM :: int where "HYPERSCANNER_COMPILE_MEM \<equiv> 1"
abbreviation (input) HYPERSCANNER_COMPILE :: int where "HYPERSCANNER_COMPILE \<equiv> 2"
abbreviation (input) HYPERSCANNER_SCRATCH :: int where "HYPERSCANNER_SCRATCH \<equiv> 3"
abbreviation (input) HYPERSCANNER_DB :: int where "HYPERSCANNER_DB \<equiv> 4"
abbreviation (input) HYPERSCANNER_STATE_MEM :: int where "HYPERSCANNER_STATE_MEM \<equiv> 5"
abbreviation (input) HYPERSCANNER_GZ_OPEN :: int where "HYPERSCANNER_GZ_OPEN \<equiv> 6"
abbreviation (input) HYPERSCANNER_SCAN :: int where "HYPERSCANNER_SCAN \<equiv> 7"

text \<open>
  \<^verbatim>\<open>struct hyperscanner_result\<close>. The fields carry the prefix \<open>res_\<close> because the
  state below has fields of the same names. \<open>res_line\<close> is the C string held in the
  slot's line buffer (the bytes before its terminator).
\<close>

record hyperscanner_result =
  res_id :: "32 word"
  res_line_number :: "64 word"
  res_line :: string

text \<open>
  \<^verbatim>\<open>struct hyperscanner_state\<close>. \<open>line\<close> is the C string that the pointer
  \<^verbatim>\<open>state->line\<close> denotes: nothing writes to the read buffer between the read of a
  line and the end of its scan. The field \<^verbatim>\<open>callback\<close> is the caller's \<^verbatim>\<open>on_event\<close>;
  what it is called with is logged in \<open>delivered\<close> (the records the caller can read,
  that is the first \<^verbatim>\<open>result_count\<close> slots, and \<^verbatim>\<open>result_count\<close> itself). \<open>scanned\<close>
  logs the calls of \<^verbatim>\<open>hs_scan\<close>: the line number at the call and the span handed over.
  The two logs are observations, not fields of the C struct.
\<close>

record hyperscanner_state =
  match_count :: "64 word"
  line_number :: "64 word"
  line :: string
  max_result_index :: "32 word"
  result_index :: "32 word"
  results :: "hyperscanner_result list"
  delivered :: "(hyperscanner_result list \<times> int) list"
  scanned :: "(64 word \<times> string) list"

text \<open>Behaviour that C leaves undefined is a fault, and ends the run.\<close>

datatype fault =
  Slot_out_of_bounds
  | Unterminated_string
  | Indeterminate_local string
  | Null_dereference
  | Array_out_of_bounds

text \<open>
  The matcher (Intel Hyperscan, not part of this repository) is a parameter: for a span
  it gives the pattern ids of the occurrences it reports, in the order of its
  callbacks, and whether \<^verbatim>\<open>hs_scan\<close> returns \<^verbatim>\<open>HS_SUCCESS\<close>.
\<close>

type_synonym matcher = "string \<Rightarrow> 32 word list \<times> bool"

section \<open>The match callback\<close>

text \<open>
  \<^verbatim>\<open>hs_callback\<close>, lines 83 to 102. The comparison of \<^verbatim>\<open>result_index\<close> (int) with
  \<^verbatim>\<open>max_result_index\<close> (unsigned int) converts the int to unsigned: it is the equality
  of the two words. An index outside the allocated slots is a fault.
\<close>

definition hs_callback :: "32 word \<Rightarrow> hyperscanner_state \<Rightarrow> fault + hyperscanner_state" where
  "hs_callback i state0 =
     (let state1 = state0\<lparr>match_count := match_count state0 + 1\<rparr>;
          state2 = state1\<lparr>result_index := result_index state1 + 1\<rparr>;
          ri = result_index state2
      in if sint ri < 0 \<or> int (length (results state2)) \<le> sint ri
         then Inl Slot_out_of_bounds
         else
           let state3 = state2\<lparr>results := (results state2)
                 [nat (sint ri) := \<lparr>res_id = i, res_line_number = line_number state2,
                                    res_line = line state2\<rparr>]\<rparr>
           in if result_index state3 = max_result_index state3
              then Inr (state3\<lparr>delivered := delivered state3 @
                           [(take (nat (sint (result_index state3 + 1))) (results state3),
                             sint (result_index state3 + 1))],
                         result_index := - 1\<rparr>)
              else Inr state3)"

text \<open>
  \<^verbatim>\<open>hs_scan\<close> calls the callback once per occurrence, in order; the callback always
  returns 0, so the matcher never stops early.
\<close>

fun report :: "32 word list \<Rightarrow> hyperscanner_state \<Rightarrow> fault + hyperscanner_state" where
  "report [] state = Inr state"
| "report (i # ids) state =
     (case hs_callback i state of Inl f \<Rightarrow> Inl f | Inr state' \<Rightarrow> report ids state')"

definition hs_scan :: "matcher \<Rightarrow> hyperscanner_state \<Rightarrow> fault + (bool \<times> hyperscanner_state)" where
  "hs_scan m state =
     (case report (fst (m (line state)))
             (state\<lparr>scanned := scanned state @ [(line_number state, line state)]\<rparr>) of
        Inl f \<Rightarrow> Inl f
      | Inr state' \<Rightarrow> Inr (snd (m (line state)), state'))"

section \<open>Reading lines\<close>

text \<open>
  \<^verbatim>\<open>gzgets\<close> is zlib's. One call transfers bytes up to and including a newline, or
  \<open>n\<close> bytes (\<open>n\<close> is \<^verbatim>\<open>buffer_size - 1\<close>), or what is left of the file; it returns
  \<^verbatim>\<open>NULL\<close> when it transfers nothing. What the calls transfer depends on the file and
  on \<open>n\<close> only, so the reads of a file are computed first.
\<close>

fun gz_take :: "nat \<Rightarrow> string \<Rightarrow> string" where
  "gz_take 0 bs = []"
| "gz_take (Suc n) [] = []"
| "gz_take (Suc n) (b # bs) = (if b = newline then [b] else b # gz_take n bs)"

function gz_lines :: "nat \<Rightarrow> string \<Rightarrow> string list" where
  "gz_lines n bs =
     (if gz_take n bs = [] then []
      else gz_take n bs # gz_lines n (drop (length (gz_take n bs)) bs))"
  by pat_completeness auto
termination
proof (relation "measure (\<lambda>(n, bs). length bs)")
  fix n :: nat and bs :: string
  assume "gz_take n bs \<noteq> []"
  then have "bs \<noteq> []"
    by (cases n; cases bs) auto
  with \<open>gz_take n bs \<noteq> []\<close>
  show "((n, drop (length (gz_take n bs)) bs), (n, bs)) \<in> measure (\<lambda>(n, bs). length bs)"
    by simp
qed simp

declare gz_lines.simps [simp del]

text \<open>\<^verbatim>\<open>gzgets\<close> stores the bytes at the start of the buffer and terminates them.\<close>

definition gz_store :: "string \<Rightarrow> string \<Rightarrow> string" where
  "gz_store l buf = l @ NUL # drop (Suc (length l)) buf"

text \<open>
  Lines 207 to 214: when the buffer starts with a zero byte, \<^verbatim>\<open>state->line\<close> moves to
  the first non-zero byte at an index from 1 up to the end of the buffer, and stays at
  the start when there is none. The buffer has \<^verbatim>\<open>buffer_size\<close> bytes.
\<close>

fun first_non_null :: "nat \<Rightarrow> string \<Rightarrow> nat option" where
  "first_non_null j [] = None"
| "first_non_null j (c # cs) = (if c \<noteq> NUL then Some j else first_non_null (Suc j) cs)"

definition line_start :: "string \<Rightarrow> nat" where
  "line_start buf =
     (case buf of
        [] \<Rightarrow> 0
      | c # cs \<Rightarrow>
          if c = NUL then (case first_non_null 1 cs of Some j \<Rightarrow> j | None \<Rightarrow> 0) else 0)"

text \<open>
  The C string at a pointer: the bytes before the first zero byte. \<^verbatim>\<open>strlen\<close> and
  \<^verbatim>\<open>strcpy\<close> run off the buffer when there is none.
\<close>

fun c_string :: "string \<Rightarrow> string option" where
  "c_string [] = None"
| "c_string (c # cs) = (if c = NUL then Some [] else map_option ((#) c) (c_string cs))"

section \<open>The scan loop\<close>

text \<open>
  One turn of the loop of \<^verbatim>\<open>hyperscan_gz\<close> (lines 199 to 225) for the read \<open>l\<close>.
  The result says whether the loop goes on, and gives \<^verbatim>\<open>ret\<close> and the state.
\<close>

definition hyperscan_gz_line ::
  "matcher \<Rightarrow> 64 word \<Rightarrow> string \<Rightarrow> string \<Rightarrow> hyperscanner_state \<Rightarrow> int \<Rightarrow>
   fault + (bool \<times> int \<times> hyperscanner_state)" where
  "hyperscan_gz_line m max_match_count l buf0 state0 ret =
     (let buf = gz_store l buf0
      in case c_string (drop (line_start buf) buf) of
           None \<Rightarrow> Inl Unterminated_string
         | Some s \<Rightarrow>
             (case hs_scan m (state0\<lparr>line := s\<rparr>) of
                Inl f \<Rightarrow> Inl f
              | Inr (ok, state) \<Rightarrow>
                  if \<not> ok then Inr (False, HYPERSCANNER_SCAN, state)
                  else if 0 < max_match_count \<and> max_match_count \<le> match_count state
                  then Inr (False, ret, state)
                  else Inr (True, ret, state\<lparr>line_number := line_number state + 1\<rparr>)))"

fun hyperscan_gz_loop ::
  "matcher \<Rightarrow> 64 word \<Rightarrow> string list \<Rightarrow> string \<Rightarrow> hyperscanner_state \<Rightarrow> int \<Rightarrow>
   fault + (int \<times> hyperscanner_state)" where
  "hyperscan_gz_loop m max_match_count [] buf state ret = Inr (ret, state)"
| "hyperscan_gz_loop m max_match_count (l # ls) buf state ret =
     (case hyperscan_gz_line m max_match_count l buf state ret of
        Inl f \<Rightarrow> Inl f
      | Inr (go, ret', state') \<Rightarrow>
          if go then hyperscan_gz_loop m max_match_count ls (gz_store l buf) state' ret'
          else Inr (ret', state'))"

text \<open>
  What a session meets outside the program: which allocations succeed, whether the
  patterns compile and the scratch space is allocated, the bytes of the file (\<open>None\<close>
  when \<^verbatim>\<open>gzopen\<close> fails), the bytes that \<^verbatim>\<open>malloc\<close> leaves in the read buffer and in the
  result slots, and the matcher that the compiled database makes.
\<close>

record env =
  malloc_state :: bool
  malloc_results :: bool
  malloc_line :: "nat \<Rightarrow> bool"
  compile_ok :: bool
  scratch_ok :: bool
  gz_file :: "string option"
  malloc_buf :: bool
  buf_garbage :: "nat \<Rightarrow> char"
  slot_garbage :: "nat \<Rightarrow> hyperscanner_result"
  hs_matcher :: matcher

datatype resource =
  State_struct
  | Result_array
  | Line_buffer nat
  | Database
  | Scratch
  | Input_file
  | Read_buffer

text \<open>
  \<^verbatim>\<open>hyperscan_gz\<close>, lines 179 to 231. A failed \<^verbatim>\<open>gzopen\<close> sets \<^verbatim>\<open>ret\<close> and the loop
  still starts: \<^verbatim>\<open>gzgets\<close> returns \<^verbatim>\<open>NULL\<close> for a null file, and for a null buffer when
  the unchecked \<^verbatim>\<open>malloc\<close> of the buffer failed. \<^verbatim>\<open>gzclose\<close> and \<^verbatim>\<open>free\<close> follow on every
  path; both accept a null argument.
\<close>

definition gz_reads :: "env \<Rightarrow> int \<Rightarrow> string list" where
  "gz_reads e buffer_size =
     (case gz_file e of
        None \<Rightarrow> []
      | Some bs \<Rightarrow> if malloc_buf e then gz_lines (nat (buffer_size - 1)) bs else [])"

definition hyperscan_gz ::
  "env \<Rightarrow> hyperscanner_state \<Rightarrow> int \<Rightarrow> 64 word \<Rightarrow> fault + (int \<times> hyperscanner_state)" where
  "hyperscan_gz e state buffer_size max_match_count =
     (let ret = (if gz_file e = None then HYPERSCANNER_GZ_OPEN else 0);
          buf = map (buf_garbage e) [0..<nat buffer_size]
      in hyperscan_gz_loop (hs_matcher e) max_match_count (gz_reads e buffer_size) buf state ret)"

definition gz_resources :: "env \<Rightarrow> resource list" where
  "gz_resources e =
     (if gz_file e = None then [] else [Input_file]) @ (if malloc_buf e then [Read_buffer] else [])"

section \<open>The session\<close>

text \<open>
  A local variable whose initialiser a \<^verbatim>\<open>goto cleanup\<close> has jumped over is
  indeterminate at the label.
\<close>

datatype 'a local_var = Indeterminate | Val 'a

text \<open>
  The block at \<^verbatim>\<open>cleanup:\<close>, lines 315 to 325, from what it reads: whether \<^verbatim>\<open>state\<close>
  and \<^verbatim>\<open>state->results\<close> are non-null, \<^verbatim>\<open>results_allocated\<close>, and whether \<^verbatim>\<open>scratch\<close>
  and \<^verbatim>\<open>db\<close> are non-null. It gives the resources released, in order.
\<close>

definition cleanup ::
  "bool \<Rightarrow> bool \<Rightarrow> nat local_var \<Rightarrow> bool local_var \<Rightarrow> bool local_var \<Rightarrow> fault + resource list" where
  "cleanup state_ok results_ok results_allocated scratch db =
     (case results_allocated of
        Indeterminate \<Rightarrow> Inl (Indeterminate_local ''results_allocated'')
      | Val k \<Rightarrow>
          if 0 < k \<and> \<not> (state_ok \<and> results_ok) then Inl Null_dereference
          else
            (case scratch of
               Indeterminate \<Rightarrow> Inl (Indeterminate_local ''scratch'')
             | Val s \<Rightarrow>
                 (case db of
                    Indeterminate \<Rightarrow> Inl (Indeterminate_local ''db'')
                  | Val d \<Rightarrow>
                      Inr (map Line_buffer [0..<k]
                           @ (if state_ok then [State_struct] else [])
                           @ (if s then [Scratch] else [])
                           @ (if d then [Database] else [])))))"

text \<open>
  What a call of \<^verbatim>\<open>hyperscan\<close> leaves: its return value, the calls of \<^verbatim>\<open>on_event\<close>, the
  calls of \<^verbatim>\<open>hs_scan\<close>, the resources it constructed and those it released.
\<close>

record outcome =
  ret :: int
  batches :: "(hyperscanner_result list \<times> int) list"
  calls :: "(64 word \<times> string) list"
  constructed :: "resource list"
  released :: "resource list"

definition leave ::
  "int \<Rightarrow> hyperscanner_state option \<Rightarrow> resource list \<Rightarrow> resource list \<Rightarrow>
   fault + resource list \<Rightarrow> fault + outcome" where
  "leave r state made freed c =
     (case c of
        Inl f \<Rightarrow> Inl f
      | Inr rs \<Rightarrow>
          Inr \<lparr>ret = r,
               batches = (case state of None \<Rightarrow> [] | Some s \<Rightarrow> delivered s),
               calls = (case state of None \<Rightarrow> [] | Some s \<Rightarrow> scanned s),
               constructed = made,
               released = freed @ rs\<rparr>)"

text \<open>
  \<^verbatim>\<open>hyperscan\<close>, lines 248 to 326. \<^verbatim>\<open>max_match_count < buffer_count\<close> compares an
  unsigned long long with an int: the int is sign-extended. \<^verbatim>\<open>max_results\<close> is an int
  again; the slots are those of the array allocated with it.
\<close>

definition effective_count :: "32 word \<Rightarrow> 64 word \<Rightarrow> 32 word" where
  "effective_count buffer_count max_match_count =
     (if 0 < max_match_count \<and> max_match_count < scast buffer_count
      then ucast max_match_count else buffer_count)"

definition init_state :: "env \<Rightarrow> 32 word \<Rightarrow> hyperscanner_state" where
  "init_state e buffer_count =
     \<lparr>match_count = 0, line_number = 0, line = [],
      max_result_index = buffer_count - 1, result_index = - 1,
      results = map (slot_garbage e) [0..<nat (sint ((buffer_count - 1) + 1))],
      delivered = [], scanned = []\<rparr>"

text \<open>Lines 310 to 313: the remaining results are sent when there are any.\<close>

definition flush :: "hyperscanner_state \<Rightarrow> hyperscanner_state" where
  "flush state =
     (if result_index state \<noteq> - 1
      then state\<lparr>delivered := delivered state @
             [(take (nat (sint (result_index state + 1))) (results state),
               sint (result_index state + 1))]\<rparr>
      else state)"

definition hyperscan :: "env \<Rightarrow> int \<Rightarrow> 32 word \<Rightarrow> 64 word \<Rightarrow> fault + outcome" where
  "hyperscan e buffer_size buffer_count0 max_match_count =
     (let buffer_count = effective_count buffer_count0 max_match_count
      in if \<not> malloc_state e
         then leave HYPERSCANNER_STATE_MEM None [] []
                (cleanup False False Indeterminate Indeterminate Indeterminate)
         else
           let state = init_state e buffer_count;
               max_results = nat (sint (max_result_index state + 1))
           in if \<not> malloc_results e
              then leave HYPERSCANNER_COMPILE_MEM None [State_struct] []
                     (cleanup True False Indeterminate Indeterminate Indeterminate)
              else
                let results_allocated = length (takeWhile (malloc_line e) [0..<max_results]);
                    made = [State_struct, Result_array] @ map Line_buffer [0..<results_allocated]
                in if results_allocated < max_results
                   then leave HYPERSCANNER_COMPILE_MEM None made []
                          (cleanup True True (Val results_allocated) Indeterminate Indeterminate)
                   else if \<not> compile_ok e
                   then leave HYPERSCANNER_DB None made []
                          (cleanup True True (Val results_allocated) (Val False) (Val False))
                   else if \<not> scratch_ok e
                   then leave HYPERSCANNER_SCRATCH None (made @ [Database]) []
                          (cleanup True True (Val results_allocated) (Val False) (Val True))
                   else
                     (case hyperscan_gz e state buffer_size max_match_count of
                        Inl f \<Rightarrow> Inl f
                      | Inr (r, state') \<Rightarrow>
                          leave r (Some (flush state')) (made @ [Database, Scratch] @ gz_resources e)
                            (gz_resources e)
                            (cleanup True True (Val results_allocated) (Val True) (Val True))))"

section \<open>The driver\<close>

text \<open>
  \<^verbatim>\<open>main\<close>, lines 334 to 355: \<^verbatim>\<open>argv[1]\<close> is the pattern, the arguments from
  \<^verbatim>\<open>argv[2]\<close> on are the files. \<open>world i\<close> is what the session for \<^verbatim>\<open>argv[i]\<close> meets;
  \<open>session world i\<close> is the call of \<^verbatim>\<open>hyperscan\<close> for it, with the pattern, flags and id
  that the turn has stored. The second component of the result lists what the sessions
  left, in order.

  Each turn declares \<^verbatim>\<open>pattern_flags\<close> and \<^verbatim>\<open>pattern_ids\<close> with one element and stores
  at index \<^verbatim>\<open>i - 2\<close> (lines 350 and 351). For \<open>i = 2\<close> that is element 0, the one
  \<^verbatim>\<open>hyperscan\<close> reads. For every later file the index is outside the arrays: the store
  is undefined, a fault, and the session of that file is not reached.
\<close>

definition session :: "(nat \<Rightarrow> env) \<Rightarrow> nat \<Rightarrow> fault + outcome" where
  "session world i = hyperscan (world i) 65535 256 0"

fun main_loop :: "(nat \<Rightarrow> env) \<Rightarrow> nat list \<Rightarrow> int \<Rightarrow> outcome list \<Rightarrow> fault + (int \<times> outcome list)" where
  "main_loop world [] r outs = Inr (r, outs)"
| "main_loop world (i # is) r outs =
     (if int i - 2 < 0 \<or> 1 \<le> int i - 2 then Inl Array_out_of_bounds
      else
        (case session world i of
           Inl f \<Rightarrow> Inl f
         | Inr out \<Rightarrow> main_loop world is (ret out) (outs @ [out])))"

definition main :: "(nat \<Rightarrow> env) \<Rightarrow> string list \<Rightarrow> fault + (int \<times> outcome list)" where
  "main world argv =
     (if length argv < 3 then Inr (- 1, [])
      else main_loop world [2..<length argv] 0 [])"

section \<open>Notions used in the statements\<close>

text \<open>
  The occurrences the matcher reports for a list of \<^verbatim>\<open>hs_scan\<close> calls, in the order of
  its callbacks: each with the id reported, the line number at the call and the span.
\<close>

definition occurrences :: "matcher \<Rightarrow> (64 word \<times> string) list \<Rightarrow> hyperscanner_result list" where
  "occurrences m cs =
     concat (map (\<lambda>(n, s). map (\<lambda>i. \<lparr>res_id = i, res_line_number = n, res_line = s\<rparr>) (fst (m s))) cs)"

text \<open>
  After the calls \<open>cs\<close> the loop goes on to the next line: the last scan succeeded and
  the quota test of line 222 fails on the count of the matches so far.
\<close>

definition went_on :: "matcher \<Rightarrow> 64 word \<Rightarrow> (64 word \<times> string) list \<Rightarrow> bool" where
  "went_on m N cs \<longleftrightarrow>
     snd (m (snd (last cs))) \<and> \<not> (0 < N \<and> N \<le> word_of_nat (length (occurrences m cs)))"

text \<open>A read without its leading zero bytes, up to its next zero byte.\<close>

definition line_span :: "string \<Rightarrow> string" where
  "line_span l = takeWhile (\<lambda>c. c \<noteq> NUL) (dropWhile (\<lambda>c. c = NUL) l)"

text \<open>A read that holds a byte other than zero.\<close>

definition text_line :: "string \<Rightarrow> bool" where
  "text_line l \<longleftrightarrow> (\<exists>c \<in> set l. c \<noteq> NUL)"

text \<open>The number of result slots a session allocates.\<close>

definition capacity :: "32 word \<Rightarrow> 64 word \<Rightarrow> nat" where
  "capacity buffer_count N = nat (sint (effective_count buffer_count N))"

text \<open>
  Every batch has as many records as its count says, at least one and at most \<open>n\<close>,
  and every batch but the last has \<open>n\<close>.
\<close>

definition batches_ok :: "nat \<Rightarrow> (hyperscanner_result list \<times> int) list \<Rightarrow> bool" where
  "batches_ok n ds \<longleftrightarrow>
     (\<forall>d \<in> set ds. snd d = int (length (fst d)) \<and> 1 \<le> length (fst d) \<and> length (fst d) \<le> n) \<and>
     (\<forall>d \<in> set (butlast ds). length (fst d) = n)"

text \<open>
  A session in which no behaviour is undefined: the state, the result array and every
  line buffer are allocated, there is at least one slot, and every read holds a byte
  other than zero.
\<close>

definition well_configured :: "env \<Rightarrow> int \<Rightarrow> 32 word \<Rightarrow> 64 word \<Rightarrow> bool" where
  "well_configured e buffer_size buffer_count N \<longleftrightarrow>
     malloc_state e \<and> malloc_results e \<and>
     (\<forall>i < capacity buffer_count N. malloc_line e i) \<and>
     0 < capacity buffer_count N \<and>
     (\<forall>l \<in> set (gz_reads e buffer_size). text_line l)"

text \<open>
  The calls of \<^verbatim>\<open>hs_scan\<close> that a file of the reads \<open>ls\<close> calls for, as a function of
  the reads alone: read after read, each at its place in the file (\<open>k\<close> counts the reads,
  from 0) and over its span, as long as the scan of the read before succeeded and the
  matches so far (\<open>c\<close> counts them) have not reached the quota \<open>N\<close>, where 0 is no quota.
\<close>

fun line_calls :: "matcher \<Rightarrow> 64 word \<Rightarrow> nat \<Rightarrow> nat \<Rightarrow> string list \<Rightarrow> (64 word \<times> string) list" where
  "line_calls m N k c [] = []"
| "line_calls m N k c (l # ls) =
     (let s = line_span l; c' = c + length (fst (m s))
      in (word_of_nat k, s) #
         (if snd (m s) \<and> \<not> (0 < N \<and> N \<le> word_of_nat c')
          then line_calls m N (Suc k) c' ls else []))"

text \<open>
  The occurrences the matcher reports for the lines \<open>ls\<close> of a file, every line scanned
  whole and numbered by its place.
\<close>

definition line_occurrences :: "matcher \<Rightarrow> string list \<Rightarrow> hyperscanner_result list" where
  "line_occurrences m ls = occurrences m (zip (map word_of_nat [0..<length ls]) ls)"

subsection \<open>Invariants of the result ring and of the scan loop\<close>

text \<open>The number of slots filled since the last delivery.\<close>

definition pending :: "hyperscanner_state \<Rightarrow> nat" where
  "pending st = nat (sint (result_index st) + 1)"

definition ring_ok :: "hyperscanner_state \<Rightarrow> bool" where
  "ring_ok st \<longleftrightarrow>
     length (results st) < 2147483648 \<and>
     (0 < length (results st) \<longrightarrow> max_result_index st = word_of_nat (length (results st)) - 1) \<and>
     - 1 \<le> sint (result_index st) \<and>
     (sint (result_index st) = - 1 \<or> sint (result_index st) + 1 < int (length (results st)))"

definition full_batches :: "nat \<Rightarrow> (hyperscanner_result list \<times> int) list \<Rightarrow> bool" where
  "full_batches n ds \<longleftrightarrow> (\<forall>d \<in> set ds. length (fst d) = n \<and> snd d = int n \<and> 0 < n)"

text \<open>The records delivered so far, followed by those waiting in the ring.\<close>

definition flat :: "hyperscanner_state \<Rightarrow> hyperscanner_result list" where
  "flat st = concat (map fst (delivered st)) @ take (pending st) (results st)"

text \<open>The spans of the reads \<open>ls\<close>, from the buffer as each read finds it.\<close>

fun spans :: "string list \<Rightarrow> string \<Rightarrow> string option list" where
  "spans [] buf = []"
| "spans (l # ls) buf =
     c_string (drop (line_start (gz_store l buf)) (gz_store l buf)) # spans ls (gz_store l buf)"

definition log_inv :: "matcher \<Rightarrow> hyperscanner_state \<Rightarrow> bool" where
  "log_inv m st \<longleftrightarrow>
     ring_ok st \<and> full_batches (length (results st)) (delivered st) \<and>
     flat st = occurrences m (scanned st) \<and>
     match_count st = word_of_nat (length (occurrences m (scanned st))) \<and>
     map fst (scanned st) = map word_of_nat [0..<length (scanned st)]"

text \<open>At the head of the loop, and where the loop is left.\<close>

definition head_inv :: "matcher \<Rightarrow> 64 word \<Rightarrow> hyperscanner_state \<Rightarrow> bool" where
  "head_inv m N st \<longleftrightarrow>
     log_inv m st \<and> line_number st = word_of_nat (length (scanned st)) \<and>
     (\<forall>k. 0 < k \<and> k \<le> length (scanned st) \<longrightarrow> went_on m N (take k (scanned st)))"

definition exit_inv :: "matcher \<Rightarrow> 64 word \<Rightarrow> int \<Rightarrow> int \<Rightarrow> hyperscanner_state \<Rightarrow> bool" where
  "exit_inv m N ret0 r st \<longleftrightarrow>
     log_inv m st \<and>
     (\<forall>k. 0 < k \<and> k < length (scanned st) \<longrightarrow> went_on m N (take k (scanned st))) \<and>
     r = (if scanned st \<noteq> [] \<and> \<not> snd (m (snd (last (scanned st)))) then HYPERSCANNER_SCAN else ret0)"

section \<open>Concrete sessions\<close>

text \<open>
  The scenario of the specification: the patterns \<^verbatim>\<open>foo\<close> (id 0) and \<^verbatim>\<open>bar\<close> (id 1),
  matched anywhere in the span, over a file of the three lines \<^verbatim>\<open>foo\<close>, \<^verbatim>\<open>bar\<close>,
  \<^verbatim>\<open>foobar\<close>; every allocation succeeds.
\<close>

fun contains :: "string \<Rightarrow> string \<Rightarrow> bool" where
  "contains p [] = (p = [])"
| "contains p (c # cs) = (take (length p) (c # cs) = p \<or> contains p cs)"

definition demo_matcher :: matcher where
  "demo_matcher s =
     ((if contains ''foo'' s then [0] else []) @ (if contains ''bar'' s then [1] else []), True)"

definition demo_env :: env where
  "demo_env =
     \<lparr>malloc_state = True, malloc_results = True, malloc_line = (\<lambda>i. True),
      compile_ok = True, scratch_ok = True,
      gz_file = Some (''foo'' @ [newline] @ ''bar'' @ [newline] @ ''foobar'' @ [newline]),
      malloc_buf = True, buf_garbage = (\<lambda>i. CHR ''#''),
      slot_garbage = (\<lambda>i. \<lparr>res_id = 0, res_line_number = 0, res_line = []\<rparr>),
      hs_matcher = demo_matcher\<rparr>"

text \<open>What the session leaves with two slots and no quota.\<close>

definition demo_outcome :: outcome where
  "demo_outcome =
     \<lparr>ret = 0,
      batches =
        [([\<lparr>res_id = 0, res_line_number = 0, res_line = ''foo'' @ [newline]\<rparr>,
           \<lparr>res_id = 1, res_line_number = 1, res_line = ''bar'' @ [newline]\<rparr>], 2),
         ([\<lparr>res_id = 0, res_line_number = 2, res_line = ''foobar'' @ [newline]\<rparr>,
           \<lparr>res_id = 1, res_line_number = 2, res_line = ''foobar'' @ [newline]\<rparr>], 2)],
      calls = [(0, ''foo'' @ [newline]), (1, ''bar'' @ [newline]), (2, ''foobar'' @ [newline])],
      constructed =
        [State_struct, Result_array, Line_buffer 0, Line_buffer 1,
         Database, Scratch, Input_file, Read_buffer],
      released =
        [Input_file, Read_buffer, Line_buffer 0, Line_buffer 1,
         State_struct, Scratch, Database]\<rparr>"

text \<open>What the same session leaves with a quota of one match.\<close>

definition quota_outcome :: outcome where
  "quota_outcome =
     \<lparr>ret = 0,
      batches = [([\<lparr>res_id = 0, res_line_number = 0, res_line = ''foo'' @ [newline]\<rparr>], 1)],
      calls = [(0, ''foo'' @ [newline])],
      constructed =
        [State_struct, Result_array, Line_buffer 0, Database, Scratch, Input_file, Read_buffer],
      released = [Input_file, Read_buffer, Line_buffer 0, State_struct, Scratch, Database]\<rparr>"

text \<open>
  The same file with a matcher whose scan fails, after its callbacks, on a span that
  holds \<^verbatim>\<open>bar\<close>; and what the session leaves with four slots.
\<close>

definition failing_env :: env where
  "failing_env = demo_env\<lparr>hs_matcher := (\<lambda>s. (fst (demo_matcher s), \<not> contains ''bar'' s))\<rparr>"

definition failing_outcome :: outcome where
  "failing_outcome =
     \<lparr>ret = 7,
      batches =
        [([\<lparr>res_id = 0, res_line_number = 0, res_line = ''foo'' @ [newline]\<rparr>,
           \<lparr>res_id = 1, res_line_number = 1, res_line = ''bar'' @ [newline]\<rparr>], 2)],
      calls = [(0, ''foo'' @ [newline]), (1, ''bar'' @ [newline])],
      constructed =
        [State_struct, Result_array, Line_buffer 0, Line_buffer 1, Line_buffer 2, Line_buffer 3,
         Database, Scratch, Input_file, Read_buffer],
      released =
        [Input_file, Read_buffer, Line_buffer 0, Line_buffer 1, Line_buffer 2, Line_buffer 3,
         State_struct, Scratch, Database]\<rparr>"

text \<open>
  A file whose last read is a single zero byte, after a longer line.
\<close>

definition stale_env :: env where
  "stale_env =
     demo_env\<lparr>gz_file := Some (''abcdef'' @ [newline, NUL]),
              hs_matcher := (\<lambda>s. (if contains ''def'' s then [0] else [], True))\<rparr>"

text \<open>
  What a session leaves that scans no line: \<open>r\<close> is its status, \<open>n\<close> the number of
  slots, \<open>gz\<close> what \<^verbatim>\<open>hyperscan_gz\<close> constructed.
\<close>

definition idle_outcome :: "int \<Rightarrow> nat \<Rightarrow> resource list \<Rightarrow> outcome" where
  "idle_outcome r n gz =
     \<lparr>ret = r, batches = [], calls = [],
      constructed = [State_struct, Result_array] @ map Line_buffer [0..<n] @ [Database, Scratch] @ gz,
      released = gz @ map Line_buffer [0..<n] @ [State_struct, Scratch, Database]\<rparr>"

text \<open>
  A run of the driver over two files: the first cannot be opened, the second is empty.
\<close>

definition two_files_world :: "nat \<Rightarrow> env" where
  "two_files_world i =
     (if i = 2 then demo_env\<lparr>gz_file := None\<rparr> else demo_env\<lparr>gz_file := Some []\<rparr>)"

definition two_files_argv :: "string list" where
  "two_files_argv = [''hyperscanner'', ''foo'', ''missing.gz'', ''empty.txt'']"

text \<open>A file of one line with a zero byte inside: \<^verbatim>\<open>ab\<close>, the zero byte, \<^verbatim>\<open>foo\<close>.\<close>

definition nul_env :: env where
  "nul_env = demo_env\<lparr>gz_file := Some (''ab'' @ [NUL] @ ''foo'' @ [newline])\<rparr>"

section \<open>Lemmas\<close>

lemma sint_succ32: 
  assumes "sint (w :: 32 word) < 2147483647" shows "sint (w + 1) = sint w + 1"
proof -
  have "sint (w + 1) = signed_take_bit 31 (sint w + 1)"
    by (simp add: sint_word_ariths)
  moreover have "- (2 ^ 31) \<le> sint w"
    using sint_ge [of w] by simp
  ultimately show ?thesis
    using assms by (simp add: signed_take_bit_int_eq_self)
qed

lemma sint_of_nat_pred32:
  assumes "0 < n" "n < 2147483648" shows "sint (word_of_nat n - 1 :: 32 word) = int n - 1"
proof -
  have "(word_of_nat n - 1 :: 32 word) = word_of_int (int n - 1)"
    by simp
  then have "sint (word_of_nat n - 1 :: 32 word) = signed_take_bit 31 (int n - 1)"
    by (simp only: sint_sbintrunc' Word.signed_of_int) simp
  then show ?thesis using assms by (simp add: signed_take_bit_int_eq_self)
qed

lemma sint_inject32: "sint (v :: 32 word) = sint w \<Longrightarrow> v = w"
  by (simp add: signed_word_eqI)

lemma ring_fill: "i < length xs \<Longrightarrow> take (Suc i) (xs[i := x]) = take i xs @ [x]"
  by (simp add: take_Suc_conv_app_nth)

lemma hs_callback_index:
  assumes "ring_ok st"
  shows "sint (result_index st + 1) = sint (result_index st) + 1"
  using assms by (intro sint_succ32) (auto simp: ring_ok_def)

lemma hs_callback_full:
  assumes "ring_ok st" "sint (result_index st) + 1 < int (length (results st))"
  shows "(result_index st + 1 = max_result_index st) = (sint (result_index st) + 2 = int (length (results st)))"
proof -
  let ?n = "length (results st)"
  have n: "0 < ?n" "?n < 2147483648" using assms by (auto simp: ring_ok_def)
  have m: "sint (max_result_index st) = int ?n - 1"
    using assms n by (simp add: ring_ok_def sint_of_nat_pred32)
  have r: "sint (result_index st + 1) = sint (result_index st) + 1"
    using assms(1) by (rule hs_callback_index)
  show ?thesis
  proof
    assume "result_index st + 1 = max_result_index st"
    then have "sint (result_index st + 1) = sint (max_result_index st)" by simp
    then show "sint (result_index st) + 2 = int ?n" using m r by simp
  next
    assume "sint (result_index st) + 2 = int ?n"
    then have "sint (result_index st + 1) = sint (max_result_index st)" using m r by simp
    then show "result_index st + 1 = max_result_index st" by (rule sint_inject32)
  qed
qed

lemma hs_callback_Inr:
  assumes "ring_ok st" "hs_callback i st = Inr st'"
  shows "ring_ok st'"
    and "flat st' = flat st @ [\<lparr>res_id = i, res_line_number = line_number st, res_line = line st\<rparr>]"
    and "match_count st' = match_count st + 1"
    and "line_number st' = line_number st"
    and "line st' = line st"
    and "scanned st' = scanned st"
    and "length (results st') = length (results st)"
    and "max_result_index st' = max_result_index st"
    and "full_batches (length (results st)) (delivered st) \<Longrightarrow>
         full_batches (length (results st)) (delivered st')"
proof -
  let ?n = "length (results st)"
  let ?r = "sint (result_index st)"
  have r1: "sint (result_index st + 1) = ?r + 1"
    using assms(1) by (rule hs_callback_index)
  have in_range: "0 \<le> ?r + 1" "?r + 1 < int ?n"
    using assms(2) r1 by (auto simp: hs_callback_def Let_def split: if_splits)
  have full: "(result_index st + 1 = max_result_index st) = (?r + 2 = int ?n)"
    using assms(1) in_range by (simp add: hs_callback_full)
  show "ring_ok st'"
    using assms in_range r1 full
    by (auto simp: hs_callback_def Let_def ring_ok_def split: if_splits)
  show "match_count st' = match_count st + 1" "line_number st' = line_number st"
    "line st' = line st" "scanned st' = scanned st" "length (results st') = length (results st)"
    "max_result_index st' = max_result_index st"
    using assms(2) by (auto simp: hs_callback_def Let_def split: if_splits)
  show "full_batches (length (results st)) (delivered st')"
    if "full_batches (length (results st)) (delivered st)"
  proof (cases "?r + 2 = int ?n")
    case True
    then have "sint (result_index st + 1 + 1) = int ?n"
      using r1 in_range assms(1) sint_succ32[of "result_index st + 1"] by (simp add: ring_ok_def)
    then show ?thesis
      using assms(2) in_range r1 full True that
      by (auto simp: hs_callback_def Let_def full_batches_def)
  next
    case False
    then show ?thesis
      using assms(2) in_range r1 full that
      by (auto simp: hs_callback_def Let_def full_batches_def)
  qed
  show "flat st' = flat st @ [\<lparr>res_id = i, res_line_number = line_number st, res_line = line st\<rparr>]"
  proof -
    let ?i = "nat (?r + 1)"
    let ?rec = "\<lparr>res_id = i, res_line_number = line_number st, res_line = line st\<rparr>"
    have i: "?i < ?n" "nat (?r + 1 + 1) = Suc ?i" using in_range by auto
    have fill: "take (Suc ?i) ((results st)[?i := ?rec]) = take ?i (results st) @ [?rec]"
      using i(1) by (rule ring_fill)
    have r2: "sint (result_index st + 1 + 1) = ?r + 1 + 1"
      using r1 in_range assms(1) sint_succ32[of "result_index st + 1"] by (simp add: ring_ok_def)
    show ?thesis
    proof (cases "?r + 2 = int ?n")
      case True
      then have "st' = st\<lparr>match_count := match_count st + 1,
                    results := (results st)[?i := ?rec],
                    delivered := delivered st @ [(take (Suc ?i) ((results st)[?i := ?rec]), ?r + 1 + 1)],
                    result_index := - 1\<rparr>"
        using assms(2) in_range r1 r2 full i by (simp add: hs_callback_def Let_def)
      then show ?thesis
        using fill by (simp add: flat_def pending_def)
    next
      case False
      then have "st' = st\<lparr>match_count := match_count st + 1,
                    result_index := result_index st + 1,
                    results := (results st)[?i := ?rec]\<rparr>"
        using assms(2) in_range r1 full by (simp add: hs_callback_def Let_def)
      then show ?thesis
        using fill r1 i by (simp add: flat_def pending_def)
    qed
  qed
qed

lemma hs_callback_defined:
  assumes "ring_ok st" "0 < length (results st)"
  shows "\<exists>st'. hs_callback i st = Inr st'"
proof -
  have "sint (result_index st + 1) = sint (result_index st) + 1"
    using assms(1) by (rule hs_callback_index)
  then show ?thesis
    using assms by (auto simp: hs_callback_def Let_def ring_ok_def)
qed

lemma report_Inr:
  assumes "ring_ok st" "report ids st = Inr st'"
  shows "ring_ok st' \<and>
     flat st' = flat st @ map (\<lambda>i. \<lparr>res_id = i, res_line_number = line_number st, res_line = line st\<rparr>) ids \<and>
     match_count st' = match_count st + word_of_nat (length ids) \<and>
     line_number st' = line_number st \<and> line st' = line st \<and> scanned st' = scanned st \<and>
     length (results st') = length (results st) \<and>
     max_result_index st' = max_result_index st \<and>
     (full_batches (length (results st)) (delivered st) \<longrightarrow>
      full_batches (length (results st)) (delivered st'))"
  using assms
proof (induction ids arbitrary: st)
  case Nil
  then show ?case by simp
next
  case (Cons i ids)
  from Cons.prems(2) obtain st1 where
    st1: "hs_callback i st = Inr st1" and rest: "report ids st1 = Inr st'"
    by (auto split: sum.splits)
  note cb = hs_callback_Inr [OF Cons.prems(1) st1]
  from Cons.IH [OF cb(1) rest] cb(2-9)
  show ?case by (simp add: algebra_simps)
qed

lemma report_defined:
  assumes "ring_ok st" "0 < length (results st)"
  shows "\<exists>st'. report ids st = Inr st'"
  using assms
proof (induction ids arbitrary: st)
  case Nil
  then show ?case by simp
next
  case (Cons i ids)
  from hs_callback_defined [OF Cons.prems] obtain st1 where st1: "hs_callback i st = Inr st1" ..
  note cb = hs_callback_Inr [OF Cons.prems(1) st1]
  from Cons.IH [of st1] cb Cons.prems(2) st1 show ?case by simp
qed

lemma occurrences_append: "occurrences m (cs @ ds) = occurrences m cs @ occurrences m ds"
  by (simp add: occurrences_def)

lemma occurrences_single:
  "occurrences m [(n, s)] = map (\<lambda>i. \<lparr>res_id = i, res_line_number = n, res_line = s\<rparr>) (fst (m s))"
  by (simp add: occurrences_def)

lemma hs_scan_Inr:
  assumes "ring_ok st" "hs_scan m st = Inr (ok, st')"
  shows "ring_ok st'"
    and "flat st' = flat st @ occurrences m [(line_number st, line st)]"
    and "scanned st' = scanned st @ [(line_number st, line st)]"
    and "match_count st' = match_count st + word_of_nat (length (occurrences m [(line_number st, line st)]))"
    and "ok = snd (m (line st))"
    and "line_number st' = line_number st"
    and "length (results st') = length (results st)"
    and "max_result_index st' = max_result_index st"
    and "full_batches (length (results st)) (delivered st) \<Longrightarrow>
         full_batches (length (results st)) (delivered st')"
proof -
  let ?st = "st\<lparr>scanned := scanned st @ [(line_number st, line st)]\<rparr>"
  from assms(2) have rep: "report (fst (m (line st))) ?st = Inr st'" and ok: "ok = snd (m (line st))"
    by (auto simp: hs_scan_def split: sum.splits)
  have "ring_ok ?st" using assms(1) by (simp add: ring_ok_def)
  note r = report_Inr [OF this rep]
  have f: "flat ?st = flat st" by (simp add: flat_def pending_def)
  show "ring_ok st'" using r by simp
  show "flat st' = flat st @ occurrences m [(line_number st, line st)]"
    using r f by (simp add: occurrences_single)
  show "scanned st' = scanned st @ [(line_number st, line st)]" using r by simp
  show "match_count st' = match_count st + word_of_nat (length (occurrences m [(line_number st, line st)]))"
    using r by (simp add: occurrences_single)
  show "ok = snd (m (line st))" by (rule ok)
  show "line_number st' = line_number st" "length (results st') = length (results st)"
    "max_result_index st' = max_result_index st"
    using r by simp_all
  show "full_batches (length (results st)) (delivered st')"
    if "full_batches (length (results st)) (delivered st)"
    using r that by simp
qed

lemma hs_scan_defined:
  assumes "ring_ok st" "0 < length (results st)"
  shows "\<exists>ok st'. hs_scan m st = Inr (ok, st')"
proof -
  have "ring_ok (st\<lparr>scanned := scanned st @ [(line_number st, line st)]\<rparr>)"
    using assms(1) by (simp add: ring_ok_def)
  from report_defined [OF this, of "fst (m (line st))"] assms(2)
  show ?thesis by (auto simp: hs_scan_def)
qed

lemma hyperscan_gz_line_Inr:
  assumes "head_inv m N st" "hyperscan_gz_line m N l buf st r = Inr (go, r', st')"
  shows "if go then head_inv m N st' \<and> r' = r else exit_inv m N r r' st'"
    and "length (scanned st') = Suc (length (scanned st))"
    and "length (results st') = length (results st)"
    and "max_result_index st' = max_result_index st"
    and "\<exists>s. c_string (drop (line_start (gz_store l buf)) (gz_store l buf)) = Some s \<and>
             scanned st' = scanned st @ [(line_number st, s)]"
    and "\<not> go \<Longrightarrow> \<not> went_on m N (scanned st')"
proof -
  from assms(2) obtain s ok st1 where
    s: "c_string (drop (line_start (gz_store l buf)) (gz_store l buf)) = Some s" and
    scan: "hs_scan m (st\<lparr>line := s\<rparr>) = Inr (ok, st1)" and
    res: "(go, r', st') =
      (if \<not> ok then (False, HYPERSCANNER_SCAN, st1)
       else if 0 < N \<and> N \<le> match_count st1 then (False, r, st1)
       else (True, r, st1\<lparr>line_number := line_number st1 + 1\<rparr>))"
    by (auto simp: hyperscan_gz_line_def Let_def split: option.splits sum.splits if_splits)
  let ?st = "st\<lparr>line := s\<rparr>"
  let ?len = "length (scanned st)"
  let ?c = "(line_number st, s)"
  have inv: "log_inv m st" and ln: "line_number st = word_of_nat ?len" and
    on: "\<And>k. 0 < k \<Longrightarrow> k \<le> ?len \<Longrightarrow> went_on m N (take k (scanned st))"
    using assms(1) by (auto simp: head_inv_def)
  have ring: "ring_ok ?st" using inv by (simp add: log_inv_def ring_ok_def)
  note h = hs_scan_Inr [OF ring scan]
  have sc: "scanned st1 = scanned st @ [?c]" using h(3) by simp
  have fl: "flat ?st = flat st" by (simp add: flat_def pending_def)
  have log1: "log_inv m st1"
    unfolding log_inv_def
  proof (intro conjI)
    show "ring_ok st1" by (rule h(1))
    show "full_batches (length (results st1)) (delivered st1)"
      using h(7,9) inv by (simp add: log_inv_def)
    show "flat st1 = occurrences m (scanned st1)"
      using h(2) fl inv sc by (simp add: log_inv_def occurrences_append)
    show "match_count st1 = word_of_nat (length (occurrences m (scanned st1)))"
      using h(4) inv sc by (simp add: log_inv_def occurrences_append)
    show "map fst (scanned st1) = map word_of_nat [0..<length (scanned st1)]"
      using inv sc ln by (simp add: log_inv_def)
  qed
  have prefix: "went_on m N (take k (scanned st1))" if "0 < k" "k \<le> ?len" for k
    using on [OF that] that sc by simp
  have whole: "went_on m N (scanned st1) \<longleftrightarrow> ok \<and> \<not> (0 < N \<and> N \<le> match_count st1)"
    using log1 sc h(5) by (simp add: went_on_def log_inv_def)
  show "if go then head_inv m N st' \<and> r' = r else exit_inv m N r r' st'"
  proof (cases go)
    case True
    with res have ok: "ok" "\<not> (0 < N \<and> N \<le> match_count st1)" and
      st': "st' = st1\<lparr>line_number := line_number st1 + 1\<rparr>" and r': "r' = r"
      by (auto split: if_splits)
    have "log_inv m st'" using log1 st' by (simp add: log_inv_def ring_ok_def flat_def pending_def)
    moreover have "line_number st' = word_of_nat (length (scanned st'))"
      using st' sc h(6) ln by simp
    moreover have "went_on m N (take k (scanned st'))" if "0 < k" "k \<le> length (scanned st')" for k
    proof (cases "k \<le> ?len")
      case True
      then show ?thesis using prefix [OF that(1)] st' by simp
    next
      case False
      with that sc st' have "take k (scanned st') = scanned st1" by simp
      then show ?thesis using whole ok by simp
    qed
    ultimately show ?thesis using True r' by (simp add: head_inv_def)
  next
    case False
    with res have st': "st' = st1" and
      r': "r' = (if \<not> ok then HYPERSCANNER_SCAN else r)"
      by (auto split: if_splits)
    have "went_on m N (take k (scanned st'))" if "0 < k" "k < length (scanned st')" for k
      using prefix [of k] that st' sc by simp
    moreover have "r' = (if scanned st' \<noteq> [] \<and> \<not> snd (m (snd (last (scanned st')))) then HYPERSCANNER_SCAN else r)"
      using r' st' sc h(5) by simp
    ultimately show ?thesis using False log1 st' by (simp add: exit_inv_def)
  qed
  show "length (scanned st') = Suc (length (scanned st))"
    using res sc by (auto split: if_splits)
  show "length (results st') = length (results st)" "max_result_index st' = max_result_index st"
    using res h(7,8) by (auto split: if_splits)
  show "\<exists>s. c_string (drop (line_start (gz_store l buf)) (gz_store l buf)) = Some s \<and>
             scanned st' = scanned st @ [(line_number st, s)]"
    using s res sc by (auto split: if_splits)
  show "\<not> went_on m N (scanned st')" if "\<not> go"
    using that res whole by (auto split: if_splits)
qed

lemma head_inv_exit: "head_inv m N st \<Longrightarrow> exit_inv m N r r st"
  by (auto simp: head_inv_def exit_inv_def went_on_def dest!: spec [of _ "length (scanned st)"])

lemma hyperscan_gz_loop_Inr:
  assumes "head_inv m N st" "hyperscan_gz_loop m N ls buf st r = Inr (r', st')"
  shows "exit_inv m N r r' st' \<and>
         length (results st') = length (results st) \<and> max_result_index st' = max_result_index st \<and>
         length (scanned st) \<le> length (scanned st') \<and>
         length (scanned st') \<le> length (scanned st) + length ls \<and>
         (length (scanned st') < length (scanned st) + length ls \<longrightarrow>
            scanned st' \<noteq> [] \<and> \<not> went_on m N (scanned st')) \<and>
         map (Some \<circ> snd) (scanned st') =
           map (Some \<circ> snd) (scanned st) @ take (length (scanned st') - length (scanned st)) (spans ls buf)"
  using assms
proof (induction ls arbitrary: buf st)
  case Nil
  then show ?case by (simp add: head_inv_exit)
next
  case (Cons l ls)
  from Cons.prems(2) obtain go r1 st1 where
    line: "hyperscan_gz_line m N l buf st r = Inr (go, r1, st1)" and
    rest: "if go then hyperscan_gz_loop m N ls (gz_store l buf) st1 r1 = Inr (r', st')
           else r' = r1 \<and> st' = st1"
    by (auto split: sum.splits if_splits)
  note s = hyperscan_gz_line_Inr [OF Cons.prems(1) line]
  from s(5) obtain sp where
    sp: "c_string (drop (line_start (gz_store l buf)) (gz_store l buf)) = Some sp"
      "scanned st1 = scanned st @ [(line_number st, sp)]"
    by blast
  show ?case
  proof (cases go)
    case True
    with s(1) rest have "head_inv m N st1" "r1 = r"
      "hyperscan_gz_loop m N ls (gz_store l buf) st1 r = Inr (r', st')"
      by simp_all
    note ih = Cons.IH [OF this(1,3)]
    have le: "length (scanned st1) \<le> length (scanned st')"
      using ih by simp
    have "length (scanned st') - length (scanned st) = Suc (length (scanned st') - length (scanned st1))"
      using le s(2) by arith
    with ih s(2-4) sp show ?thesis by simp
  next
    case False
    with s rest sp show ?thesis by simp
  qed
qed

lemma full_batches_ok: "full_batches n ds \<Longrightarrow> batches_ok n ds"
proof -
  assume f: "full_batches n ds"
  have "set (butlast ds) \<subseteq> set ds" by (auto dest: in_set_butlastD)
  with f show ?thesis
    unfolding full_batches_def batches_ok_def
    by (metis One_nat_def Suc_leI order_refl subsetD)
qed

lemma full_batches_snoc:
  "full_batches n ds \<Longrightarrow> 1 \<le> length b \<Longrightarrow> length b \<le> n \<Longrightarrow>
   batches_ok n (ds @ [(b, int (length b))])"
proof -
  assume f: "full_batches n ds" and b: "1 \<le> length b" "length b \<le> n"
  from f have "batches_ok n ds" by (rule full_batches_ok)
  then have "\<forall>d \<in> set ds. snd d = int (length (fst d)) \<and> 1 \<le> length (fst d) \<and> length (fst d) \<le> n"
    by (simp add: batches_ok_def)
  moreover have "\<forall>d \<in> set ds. length (fst d) = n"
    using f by (simp add: full_batches_def)
  ultimately show ?thesis
    using b by (simp add: batches_ok_def butlast_append)
qed

lemma flush_batches:
  assumes "log_inv m st"
  shows "concat (map fst (delivered (flush st))) = occurrences m (scanned st)"
    and "batches_ok (length (results st)) (delivered (flush st))"
    and "scanned (flush st) = scanned st"
proof -
  let ?n = "length (results st)"
  have ring: "ring_ok st" and full: "full_batches ?n (delivered st)" and
    fl: "flat st = occurrences m (scanned st)"
    using assms by (simp_all add: log_inv_def)
  have r1: "sint (result_index st + 1) = sint (result_index st) + 1"
    using ring by (rule hs_callback_index)
  show "scanned (flush st) = scanned st" by (simp add: flush_def)
  show "concat (map fst (delivered (flush st))) = occurrences m (scanned st)"
    using fl r1 by (auto simp: flush_def flat_def pending_def)
  show "batches_ok ?n (delivered (flush st))"
  proof (cases "result_index st = - 1")
    case True
    then show ?thesis
      using full by (simp add: flush_def full_batches_ok)
  next
    case False
    then have "sint (result_index st) \<noteq> sint (- 1 :: 32 word)"
      using sint_inject32 by blast
    then have "sint (result_index st) \<noteq> - 1"
      by simp
    then have p: "0 \<le> sint (result_index st)" "sint (result_index st) + 1 < int ?n"
      using ring by (auto simp: ring_ok_def)
    let ?b = "take (nat (sint (result_index st + 1))) (results st)"
    have "length ?b = nat (sint (result_index st) + 1)" using p r1 by simp
    moreover from this have "sint (result_index st + 1) = int (length ?b)" using p r1 by simp
    ultimately have "batches_ok ?n (delivered st @ [(?b, sint (result_index st + 1))])"
      using full_batches_snoc [OF full, of ?b] p by simp
    then show ?thesis using False by (simp add: flush_def)
  qed
qed

lemma init_state_head: "head_inv m N (init_state e c)"
proof -
  have "sint c < 2147483648" using sint_lt [of c] by simp
  moreover have "word_of_nat (nat (sint c)) = c" if "0 < sint c"
    using that by simp
  ultimately show ?thesis
    by (simp add: init_state_def head_inv_def log_inv_def ring_ok_def full_batches_def
        flat_def pending_def occurrences_def)
qed

lemma init_state_results: "length (results (init_state e c)) = nat (sint c)"
  by (simp add: init_state_def)

lemma leave_Inr:
  "leave r st made freed c = Inr out \<Longrightarrow>
   ret out = r \<and> batches out = (case st of None \<Rightarrow> [] | Some s \<Rightarrow> delivered s) \<and>
   calls out = (case st of None \<Rightarrow> [] | Some s \<Rightarrow> scanned s) \<and> constructed out = made \<and>
   (\<exists>rs. c = Inr rs \<and> released out = freed @ rs)"
  by (auto simp: leave_def split: sum.splits)

lemma leave_None:
  "leave r None made freed c = Inr out \<Longrightarrow> ret out = r \<and> batches out = [] \<and> calls out = []"
  by (auto simp: leave_def split: sum.splits)

lemma leave_Some:
  "leave r (Some st) made freed c = Inr out \<Longrightarrow>
   ret out = r \<and> batches out = delivered st \<and> calls out = scanned st"
  by (auto simp: leave_def split: sum.splits)

lemma hyperscan_cases:
  assumes "hyperscan e bs bc N = Inr out"
  obtains (early) "batches out = []" "calls out = []" "ret out \<noteq> 0"
  | (scan) r st where
      "hyperscan_gz e (init_state e (effective_count bc N)) bs N = Inr (r, st)"
      "ret out = r" "batches out = delivered (flush st)" "calls out = scanned (flush st)"
proof (cases "malloc_state e \<and> malloc_results e \<and>
    \<not> length (takeWhile (malloc_line e)
         [0..<nat (sint (max_result_index (init_state e (effective_count bc N)) + 1))])
       < nat (sint (max_result_index (init_state e (effective_count bc N)) + 1)) \<and>
    compile_ok e \<and> scratch_ok e")
  case True
  with assms obtain r st where
    gz: "hyperscan_gz e (init_state e (effective_count bc N)) bs N = Inr (r, st)"
    by (cases "hyperscan_gz e (init_state e (effective_count bc N)) bs N")
       (auto simp: hyperscan_def Let_def)
  with assms True have "\<exists>made freed c. leave r (Some (flush st)) made freed c = Inr out"
    by (auto simp: hyperscan_def Let_def)
  then show ?thesis using gz scan by (auto dest!: leave_Some)
next
  case False
  with assms have "ret out \<noteq> 0 \<and> batches out = [] \<and> calls out = []"
    by (simp add: hyperscan_def Let_def split: if_splits) (auto dest!: leave_None)
  then show ?thesis using early by simp
qed

lemma c_string_NUL:
  "NUL \<in> set xs \<Longrightarrow> c_string xs = Some (takeWhile (\<lambda>c. c \<noteq> NUL) xs)"
  by (induction xs) auto

lemma c_string_terminated:
  "c_string (xs @ NUL # ys) = Some (takeWhile (\<lambda>c. c \<noteq> NUL) xs)"
proof -
  have "takeWhile (\<lambda>c. c \<noteq> NUL) (xs @ NUL # ys) = takeWhile (\<lambda>c. c \<noteq> NUL) xs"
    by (induction xs) auto
  then show ?thesis using c_string_NUL [of "xs @ NUL # ys"] by simp
qed

lemma first_non_null_text:
  "text_line xs \<Longrightarrow>
   first_non_null j (xs @ ys) = Some (j + length (takeWhile (\<lambda>c. c = NUL) xs))"
  by (induction xs arbitrary: j) (auto simp: text_line_def)

lemma drop_takeWhile_length: "drop (length (takeWhile P xs)) xs = dropWhile P xs"
  by (induction xs) auto

lemma span_of_read:
  assumes "text_line l"
  shows "c_string (drop (line_start (gz_store l buf)) (gz_store l buf)) = Some (line_span l)"
proof (cases l)
  case Nil
  with assms show ?thesis by (simp add: text_line_def)
next
  case (Cons c cs)
  show ?thesis
  proof (cases "c = NUL")
    case False
    with Cons have "line_start (gz_store l buf) = 0" by (simp add: line_start_def gz_store_def)
    moreover have "line_span l = takeWhile (\<lambda>c. c \<noteq> NUL) l"
      using False Cons by (simp add: line_span_def)
    ultimately show ?thesis
      using c_string_terminated [of l] by (simp add: gz_store_def)
  next
    case True
    with assms Cons have t: "text_line cs" by (simp add: text_line_def)
    let ?k = "length (takeWhile (\<lambda>c. c = NUL) cs)"
    have "line_start (gz_store l buf) = Suc ?k"
      using True Cons first_non_null_text [OF t, of 1] by (simp add: line_start_def gz_store_def)
    moreover have "?k \<le> length cs" by (rule length_takeWhile_le)
    ultimately have "drop (line_start (gz_store l buf)) (gz_store l buf)
        = dropWhile (\<lambda>c. c = NUL) cs @ NUL # drop (Suc (length l)) buf"
      using Cons by (simp add: gz_store_def drop_takeWhile_length)
    moreover have "line_span l = takeWhile (\<lambda>c. c \<noteq> NUL) (dropWhile (\<lambda>c. c = NUL) cs)"
      using True Cons by (simp add: line_span_def)
    ultimately show ?thesis by (simp add: c_string_terminated)
  qed
qed

lemma spans_text:
  "\<forall>l \<in> set ls. text_line l \<Longrightarrow> spans ls buf = map (Some \<circ> line_span) ls"
  by (induction ls arbitrary: buf) (simp_all add: span_of_read)

lemma gz_take_length: "length (gz_take n bs) \<le> n"
  by (induction n bs rule: gz_take.induct) auto

lemma gz_take_prefix: "gz_take n bs @ drop (length (gz_take n bs)) bs = bs"
  by (induction n bs rule: gz_take.induct) auto

lemma gz_lines_reads:
  "l \<in> set (gz_lines n bs) \<Longrightarrow> l \<noteq> [] \<and> length l \<le> n"
proof (induction n bs rule: gz_lines.induct)
  case (1 n bs)
  from 1(2) have "gz_take n bs \<noteq> [] \<and>
      (l = gz_take n bs \<or> l \<in> set (gz_lines n (drop (length (gz_take n bs)) bs)))"
    by (subst (asm) gz_lines.simps) (auto split: if_splits)
  with 1(1) show ?case
    using gz_take_length [of n bs] by auto
qed

lemma gz_lines_concat: "0 < n \<Longrightarrow> concat (gz_lines n bs) = bs"
proof (induction n bs rule: gz_lines.induct)
  case (1 n bs)
  show ?case
  proof (cases "gz_take n bs = []")
    case True
    with 1(2) have "bs = []" by (cases n; cases bs) (auto split: if_splits)
    with True show ?thesis by (subst gz_lines.simps) simp
  next
    case False
    with 1 have "concat (gz_lines n (drop (length (gz_take n bs)) bs)) = drop (length (gz_take n bs)) bs"
      by simp
    with False show ?thesis
      by (subst gz_lines.simps) (simp add: gz_take_prefix)
  qed
qed

lemma hyperscan_gz_line_defined:
  assumes "head_inv m N st" "0 < length (results st)" "text_line l"
  shows "\<exists>go r' st'. hyperscan_gz_line m N l buf st r = Inr (go, r', st')"
proof -
  let ?st = "st\<lparr>line := line_span l\<rparr>"
  have "ring_ok ?st" using assms(1) by (simp add: head_inv_def log_inv_def ring_ok_def)
  from hs_scan_defined [OF this, of m] assms(2) obtain ok st1 where
    "hs_scan m ?st = Inr (ok, st1)" by auto
  then show ?thesis
    by (auto simp: hyperscan_gz_line_def span_of_read [OF assms(3)])
qed

lemma hyperscan_gz_loop_defined:
  assumes "head_inv m N st" "0 < length (results st)" "\<forall>l \<in> set ls. text_line l"
  shows "\<exists>r' st'. hyperscan_gz_loop m N ls buf st r = Inr (r', st')"
  using assms
proof (induction ls arbitrary: buf st)
  case Nil
  then show ?case by simp
next
  case (Cons l ls)
  from hyperscan_gz_line_defined [OF Cons.prems(1,2), of l buf r] Cons.prems(3)
  obtain go r1 st1 where line: "hyperscan_gz_line m N l buf st r = Inr (go, r1, st1)"
    by auto
  note s = hyperscan_gz_line_Inr [OF Cons.prems(1) line]
  show ?case
  proof (cases go)
    case True
    with s(1) have "head_inv m N st1" "r1 = r" by simp_all
    from Cons.IH [OF this(1), of "gz_store l buf"] s(3) Cons.prems(2,3) line True this(2)
    show ?thesis by simp
  next
    case False
    with line show ?thesis by simp
  qed
qed

lemma gz_reads_closed: "gz_file e = None \<Longrightarrow> gz_reads e bs = []"
  by (simp add: gz_reads_def)

lemma gz_reads_text:
  "well_configured e bs bc N \<Longrightarrow> \<forall>l \<in> set (gz_reads e bs). text_line l"
  by (simp add: well_configured_def)

lemma hyperscan_defined:
  assumes "well_configured e bs bc N"
  shows "\<exists>out. hyperscan e bs bc N = Inr out"
proof -
  let ?c = "effective_count bc N"
  let ?st = "init_state e ?c"
  let ?n = "nat (sint (max_result_index ?st + 1))"
  have n: "?n = capacity bc N" by (simp add: init_state_def capacity_def)
  have "\<forall>i \<in> set [0..<?n]. malloc_line e i"
    using assms n by (simp add: well_configured_def)
  then have "takeWhile (malloc_line e) [0..<?n] = [0..<?n]"
    by (simp only: takeWhile_eq_all_conv)
  then have "length (takeWhile (malloc_line e) [0..<?n]) = length [0..<?n]"
    by (rule arg_cong)
  then have all: "length (takeWhile (malloc_line e) [0..<?n]) = ?n"
    by (simp only: length_upt diff_zero)
  have "\<forall>l \<in> set (gz_reads e bs). text_line l"
    using assms by (rule gz_reads_text)
  moreover have "0 < length (results ?st)"
    using assms by (simp add: well_configured_def init_state_results capacity_def)
  ultimately obtain r st' where "hyperscan_gz e ?st bs N = Inr (r, st')"
    using hyperscan_gz_loop_defined [OF init_state_head, of e ?c "gz_reads e bs" "hs_matcher e" N]
    unfolding hyperscan_gz_def Let_def by blast
  then show ?thesis
    using assms all
    by (simp add: hyperscan_def Let_def well_configured_def cleanup_def leave_def)
qed

lemma hyperscan_Inr:
  assumes "hyperscan e bs bc N = Inr out"
  shows "concat (map fst (batches out)) = occurrences (hs_matcher e) (calls out) \<and>
     batches_ok (capacity bc N) (batches out) \<and>
     map fst (calls out) = map word_of_nat [0..<length (calls out)] \<and>
     (\<forall>k. 0 < k \<longrightarrow> k < length (calls out) \<longrightarrow> went_on (hs_matcher e) N (take k (calls out))) \<and>
     (calls out \<noteq> [] \<longrightarrow>
        ret out = (if snd (hs_matcher e (snd (last (calls out)))) then 0 else HYPERSCANNER_SCAN)) \<and>
     length (calls out) \<le> length (gz_reads e bs) \<and>
     (length (calls out) < length (gz_reads e bs) \<longrightarrow>
        (if calls out = [] then ret out \<noteq> 0 else \<not> went_on (hs_matcher e) N (calls out))) \<and>
     ((\<forall>l \<in> set (gz_reads e bs). text_line l) \<longrightarrow>
        map snd (calls out) = map line_span (take (length (calls out)) (gz_reads e bs)))"
  using assms
proof (cases rule: hyperscan_cases)
  case early
  then show ?thesis by (simp add: occurrences_def batches_ok_def)
next
  case (scan r st)
  let ?m = "hs_matcher e"
  let ?st0 = "init_state e (effective_count bc N)"
  let ?r0 = "if gz_file e = None then HYPERSCANNER_GZ_OPEN else 0"
  from scan(1) have loop: "hyperscan_gz_loop ?m N (gz_reads e bs)
      (map (buf_garbage e) [0..<nat bs]) ?st0 ?r0 = Inr (r, st)"
    by (simp add: hyperscan_gz_def Let_def)
  note l = hyperscan_gz_loop_Inr [OF init_state_head loop]
  from l have ex: "exit_inv ?m N ?r0 r st" by simp
  then have log: "log_inv ?m st" by (simp add: exit_inv_def)
  note f = flush_batches [OF log]
  have sc0: "scanned ?st0 = []" by (simp add: init_state_def)
  have calls: "calls out = scanned st" using scan(4) f(3) by simp
  have "length (results st) = capacity bc N"
    using l by (simp add: init_state_results capacity_def)
  with f(2) scan(3) have 2: "batches_ok (capacity bc N) (batches out)" by simp
  have 1: "concat (map fst (batches out)) = occurrences ?m (calls out)"
    using f(1) scan(3) calls by simp
  have 3: "map fst (calls out) = map word_of_nat [0..<length (calls out)]"
    using log calls by (simp add: log_inv_def)
  have 4: "\<forall>k. 0 < k \<longrightarrow> k < length (calls out) \<longrightarrow> went_on ?m N (take k (calls out))"
    using ex calls by (simp add: exit_inv_def)
  have 6: "length (calls out) \<le> length (gz_reads e bs)"
    using l calls sc0 by simp
  have open_ok: "gz_file e \<noteq> None" if "calls out \<noteq> []"
    using that 6 gz_reads_closed [of e bs] by (cases "gz_file e") auto
  have 5: "calls out \<noteq> [] \<longrightarrow>
         ret out = (if snd (?m (snd (last (calls out)))) then 0 else HYPERSCANNER_SCAN)"
  proof
    assume ne: "calls out \<noteq> []"
    then have "?r0 = 0" using open_ok by simp
    with ex have "r = (if scanned st \<noteq> [] \<and> \<not> snd (?m (snd (last (scanned st)))) then HYPERSCANNER_SCAN else 0)"
      by (simp add: exit_inv_def)
    with ne calls scan(2)
    show "ret out = (if snd (?m (snd (last (calls out)))) then 0 else HYPERSCANNER_SCAN)"
      by simp
  qed
  have 7: "length (calls out) < length (gz_reads e bs) \<longrightarrow>
         (if calls out = [] then ret out \<noteq> 0 else \<not> went_on ?m N (calls out))"
    using l calls sc0 by auto
  have 8: "(\<forall>l \<in> set (gz_reads e bs). text_line l) \<longrightarrow>
         map snd (calls out) = map line_span (take (length (calls out)) (gz_reads e bs))"
  proof
    assume "\<forall>l \<in> set (gz_reads e bs). text_line l"
    then have "spans (gz_reads e bs) (map (buf_garbage e) [0..<nat bs]) = map (Some \<circ> line_span) (gz_reads e bs)"
      by (rule spans_text)
    with l calls sc0 have "map (Some \<circ> snd) (calls out)
        = map (Some \<circ> line_span) (take (length (calls out)) (gz_reads e bs))"
      by (simp add: take_map)
    then have "map the (map (Some \<circ> snd) (calls out))
        = map the (map (Some \<circ> line_span) (take (length (calls out)) (gz_reads e bs)))"
      by simp
    then show "map snd (calls out) = map line_span (take (length (calls out)) (gz_reads e bs))"
      by (simp add: comp_def)
  qed
  from 1 2 3 4 5 6 7 8 show ?thesis by blast
qed

lemma scast_nonneg:
  assumes "0 \<le> sint (c :: 32 word)" shows "unat (scast c :: 64 word) = nat (sint c)"
proof -
  have "sint c < 2 ^ 31" using sint_lt [of c] by simp
  then have "sint c < 2 ^ 64" by simp
  then have m: "sint c mod 2 ^ 64 = sint c" using assms by simp
  have "(scast c :: 64 word) = word_of_int (sint c)" by (rule scast_eq)
  then have "uint (scast c :: 64 word) = sint c mod 2 ^ LENGTH(64)"
    by (simp only: uint_word_of_int)
  then have "uint (scast c :: 64 word) = sint c" using m by simp
  then show ?thesis by (simp only: unat_eq_nat_uint)
qed

lemma ucast_small:
  assumes "unat (N :: 64 word) < 2147483648" shows "sint (ucast N :: 32 word) = int (unat N)"
proof -
  have iu: "int (unat N) = uint N" by simp
  have "int (unat N) < 2147483648" using assms by linarith
  then have u: "uint N < 2 ^ 31" "0 \<le> uint N" using iu by simp_all
  have "(ucast N :: 32 word) = word_of_int (uint N)" by (rule ucast_eq)
  then have "sint (ucast N :: 32 word) = signed_take_bit (LENGTH(32) - 1) (uint N)"
    by (simp only: sint_sbintrunc')
  also have "\<dots> = uint N"
  proof -
    have "- (2 ^ 31) \<le> (0 :: int)" by simp
    then have "- (2 ^ 31) \<le> uint N" using u(2) by (rule order_trans)
    then show ?thesis using u(1) by (simp add: signed_take_bit_int_eq_self)
  qed
  finally show ?thesis using iu by simp
qed

lemma unat_of_nat64: "n < 18446744073709551616 \<Longrightarrow> unat (word_of_nat n :: 64 word) = n"
  by (simp add: unat_of_nat)

lemma effective_count_quota:
  assumes "0 < N" "unat N < nat (sint bc)"
  shows "effective_count bc N = ucast N" and "capacity bc N = unat N"
proof -
  have pos: "0 \<le> sint bc" using assms(2) by simp
  have "unat N < unat (scast bc :: 64 word)"
    using assms(2) scast_nonneg [OF pos] by simp
  then have "N < scast bc" by (simp add: word_less_nat_alt)
  then show e: "effective_count bc N = ucast N"
    using assms(1) by (simp add: effective_count_def)
  have "sint bc < 2147483648" using sint_lt [of bc] by simp
  then have "unat N < 2147483648" using assms(2) by simp
  then show "capacity bc N = unat N"
    using e by (simp add: capacity_def ucast_small)
qed

lemma capacity_le:
  assumes "0 \<le> sint bc"
  shows "capacity bc N \<le> nat (sint bc)"
proof (cases "0 < N \<and> N < scast bc")
  case True
  then have "unat N < unat (scast bc :: 64 word)" by (simp add: word_less_nat_alt)
  then have "unat N < nat (sint bc)" using scast_nonneg [OF assms] by simp
  with True show ?thesis using effective_count_quota(2) [of N bc] by simp
next
  case False
  then show ?thesis by (auto simp: capacity_def effective_count_def)
qed

lemma occurrences_take_le:
  "length (occurrences m (take k cs)) \<le> length (occurrences m cs)"
proof -
  have "occurrences m cs = occurrences m (take k cs) @ occurrences m (drop k cs)"
    by (metis append_take_drop_id occurrences_append)
  then show ?thesis by simp
qed

lemma occurrences_line_numbers:
  assumes "sorted (map (\<lambda>c. unat (fst c)) cs)"
  shows "sorted (map (\<lambda>r. unat (res_line_number r)) (occurrences m cs)) \<and>
         (\<forall>r \<in> set (occurrences m cs). \<exists>c \<in> set cs. res_line_number r = fst c)"
  using assms
proof (induction cs)
  case Nil
  then show ?case by (simp add: occurrences_def)
next
  case (Cons c cs)
  obtain n s where c: "c = (n, s)" by (cases c)
  have split: "occurrences m (c # cs) = occurrences m [c] @ occurrences m cs"
    using occurrences_append [of m "[c]" cs] by simp
  have one: "\<forall>r \<in> set (occurrences m [c]). res_line_number r = n"
    using c by (auto simp: occurrences_single)
  then have "map (\<lambda>r. unat (res_line_number r)) (occurrences m [c])
      = replicate (length (occurrences m [c])) (unat n)"
    by (simp add: map_replicate_const [symmetric] cong: map_cong)
  then have s1: "sorted (map (\<lambda>r. unat (res_line_number r)) (occurrences m [c]))"
    by simp
  from Cons.prems have tl: "sorted (map (\<lambda>c. unat (fst c)) cs)"
    and le: "\<forall>c' \<in> set cs. unat n \<le> unat (fst c')"
    using c by simp_all
  from Cons.IH [OF tl] have ih: "sorted (map (\<lambda>r. unat (res_line_number r)) (occurrences m cs))"
    "\<forall>r \<in> set (occurrences m cs). \<exists>c \<in> set cs. res_line_number r = fst c"
    by simp_all
  have "\<forall>x \<in> set (occurrences m [c]). \<forall>y \<in> set (occurrences m cs).
      unat (res_line_number x) \<le> unat (res_line_number y)"
    using one ih(2) le by fastforce
  with s1 ih(1) have "sorted (map (\<lambda>r. unat (res_line_number r)) (occurrences m (c # cs)))"
    by (simp add: split sorted_append)
  moreover have "\<forall>r \<in> set (occurrences m (c # cs)). \<exists>c' \<in> set (c # cs). res_line_number r = fst c'"
  proof
    fix r assume "r \<in> set (occurrences m (c # cs))"
    then have "r \<in> set (occurrences m [c]) \<or> r \<in> set (occurrences m cs)"
      by (simp add: split)
    then show "\<exists>c' \<in> set (c # cs). res_line_number r = fst c'"
      using one ih(2) c by auto
  qed
  ultimately show ?case by simp
qed

lemma line_numbers_sorted:
  assumes "map fst cs = map word_of_nat [0..<length cs]" "length cs \<le> 18446744073709551616"
  shows "sorted (map (\<lambda>c. unat (fst c)) (cs :: (64 word \<times> string) list))"
proof -
  have "map unat (map fst cs) = map (\<lambda>i. unat (word_of_nat i :: 64 word)) [0..<length cs]"
    using assms(1) by (simp add: comp_def)
  also have "\<dots> = map (\<lambda>i. i) [0..<length cs]"
    using assms(2) by (intro map_cong refl) (simp add: unat_of_nat64)
  finally have "map (\<lambda>c. unat (fst c)) cs = [0..<length cs]" by (simp add: comp_def)
  then show ?thesis by simp
qed

lemma hs_callback_delivery:
  assumes "ring_ok st" "hs_callback i st = Inr st'"
  shows "if result_index st + 1 = max_result_index st
         then delivered st' = delivered st @ [(results st', int (length (results st')))] \<and>
              result_index st' = - 1
         else delivered st' = delivered st \<and> result_index st' = result_index st + 1"
proof -
  let ?n = "length (results st)"
  let ?r = "sint (result_index st)"
  have r1: "sint (result_index st + 1) = ?r + 1"
    using assms(1) by (rule hs_callback_index)
  have in_range: "0 \<le> ?r + 1" "?r + 1 < int ?n"
    using assms(2) r1 by (auto simp: hs_callback_def Let_def split: if_splits)
  have full: "(result_index st + 1 = max_result_index st) = (?r + 2 = int ?n)"
    using assms(1) in_range by (simp add: hs_callback_full)
  have r2: "sint (result_index st + 1 + 1) = ?r + 1 + 1"
    using r1 in_range assms(1) sint_succ32 [of "result_index st + 1"] by (simp add: ring_ok_def)
  show ?thesis
  proof (cases "?r + 2 = int ?n")
    case True
    then show ?thesis
      using assms(2) in_range r1 r2 full by (auto simp: hs_callback_def Let_def)
  next
    case False
    then show ?thesis
      using assms(2) in_range r1 full by (auto simp: hs_callback_def Let_def)
  qed
qed

lemma first_batch:
  assumes "batches_ok n ds" "0 < n" "n \<le> length (concat (map fst ds))"
  shows "ds \<noteq> [] \<and> fst (hd ds) = take n (concat (map fst ds))"
proof (cases ds)
  case Nil
  with assms show ?thesis by simp
next
  case (Cons d ds')
  show ?thesis
  proof (cases "ds' = []")
    case True
    with Cons assms have "length (fst d) = n" by (simp add: batches_ok_def)
    with True Cons show ?thesis by simp
  next
    case False
    with Cons have "d \<in> set (butlast ds)" by simp
    with assms(1) have "length (fst d) = n" by (simp add: batches_ok_def)
    with Cons show ?thesis by simp
  qed
qed

lemma below_quota:
  assumes "\<not> (0 < N \<and> N \<le> (word_of_nat n :: 64 word))" "0 < N" "n < 18446744073709551616"
  shows "n < unat N"
proof -
  have "unat (word_of_nat n :: 64 word) = n" using assms(3) by (rule unat_of_nat64)
  moreover have "(word_of_nat n :: 64 word) < N" using assms(1,2) by simp
  ultimately show ?thesis by (simp add: word_less_nat_alt)
qed

lemma occurrences_snoc:
  "cs \<noteq> [] \<Longrightarrow>
   length (occurrences m cs) = length (occurrences m (butlast cs)) + length (fst (m (snd (last cs))))"
proof -
  assume "cs \<noteq> []"
  then have "cs = butlast cs @ [last cs]" by simp
  then have "occurrences m cs = occurrences m (butlast cs) @ occurrences m [last cs]"
    by (metis occurrences_append)
  moreover have "length (occurrences m [last cs]) = length (fst (m (snd (last cs))))"
    by (cases "last cs") (simp add: occurrences_single)
  ultimately show ?thesis by simp
qed


lemma hyperscan_scanning:
  assumes "malloc_state e" "malloc_results e" "\<forall>i < capacity bc N. malloc_line e i"
    "compile_ok e" "scratch_ok e" "hyperscan e bs bc N = Inr out"
  obtains r st where
    "hyperscan_gz e (init_state e (effective_count bc N)) bs N = Inr (r, st)"
    "ret out = r" "batches out = delivered (flush st)" "calls out = scanned (flush st)"
proof -
  let ?c = "effective_count bc N"
  let ?st = "init_state e ?c"
  let ?n = "nat (sint (max_result_index ?st + 1))"
  have n: "?n = capacity bc N" by (simp add: init_state_def capacity_def)
  have "\<forall>i \<in> set [0..<?n]. malloc_line e i"
    using assms(3) n by simp
  then have "takeWhile (malloc_line e) [0..<?n] = [0..<?n]"
    by (simp only: takeWhile_eq_all_conv)
  then have "length (takeWhile (malloc_line e) [0..<?n]) = length [0..<?n]"
    by (rule arg_cong)
  then have all: "\<not> length (takeWhile (malloc_line e) [0..<?n]) < ?n"
    by (simp only: length_upt diff_zero less_irrefl not_False_eq_True)
  from assms(1,2,4,5,6) all obtain r st where
    gz: "hyperscan_gz e ?st bs N = Inr (r, st)"
    by (cases "hyperscan_gz e ?st bs N") (auto simp: hyperscan_def Let_def)
  with assms(1,2,4,5,6) all have "\<exists>made freed c. leave r (Some (flush st)) made freed c = Inr out"
    by (auto simp: hyperscan_def Let_def)
  then have "ret out = r \<and> batches out = delivered (flush st) \<and> calls out = scanned (flush st)"
    by (auto dest!: leave_Some)
  with gz that show ?thesis by blast
qed

lemma went_on_snoc:
  "went_on m N (cs @ [(n, s)]) \<longleftrightarrow>
     snd (m s) \<and> \<not> (0 < N \<and> N \<le> word_of_nat (length (occurrences m cs) + length (fst (m s))))"
  by (simp add: went_on_def occurrences_append occurrences_single)

lemma hyperscan_gz_loop_calls:
  assumes "head_inv m N st" "hyperscan_gz_loop m N ls buf st r = Inr (r', st')"
    "\<forall>l \<in> set ls. text_line l"
  shows "scanned st' = scanned st @
     line_calls m N (length (scanned st)) (length (occurrences m (scanned st))) ls"
  using assms
proof (induction ls arbitrary: buf st)
  case Nil
  then show ?case by simp
next
  case (Cons l ls)
  from Cons.prems(2) obtain go r1 st1 where
    line: "hyperscan_gz_line m N l buf st r = Inr (go, r1, st1)" and
    rest: "if go then hyperscan_gz_loop m N ls (gz_store l buf) st1 r1 = Inr (r', st')
           else r' = r1 \<and> st' = st1"
    by (auto split: sum.splits if_splits)
  note s = hyperscan_gz_line_Inr [OF Cons.prems(1) line]
  have tl: "text_line l" using Cons.prems(3) by simp
  have ln: "line_number st = word_of_nat (length (scanned st))"
    using Cons.prems(1) by (simp add: head_inv_def)
  from s(5) span_of_read [OF tl, of buf]
  have sc: "scanned st1 = scanned st @ [(word_of_nat (length (scanned st)), line_span l)]"
    using ln by simp
  let ?s = "line_span l"
  let ?c' = "length (occurrences m (scanned st)) + length (fst (m ?s))"
  have c': "length (occurrences m (scanned st1)) = ?c'"
    using sc by (simp add: occurrences_append occurrences_single)
  have w: "went_on m N (scanned st1) \<longleftrightarrow> snd (m ?s) \<and> \<not> (0 < N \<and> N \<le> word_of_nat ?c')"
    unfolding sc by (rule went_on_snoc)
  show ?case
  proof (cases go)
    case True
    with s(1) rest have h: "head_inv m N st1" and
      loop: "hyperscan_gz_loop m N ls (gz_store l buf) st1 r = Inr (r', st')"
      by simp_all
    from h have "went_on m N (take (length (scanned st1)) (scanned st1))"
      using sc unfolding head_inv_def by (metis length_append_singleton le_refl zero_less_Suc)
    then have cont: "snd (m ?s) \<and> \<not> (0 < N \<and> N \<le> word_of_nat ?c')"
      using w by simp
    from Cons.IH [OF h loop] Cons.prems(3)
    have "scanned st' = scanned st1 @
        line_calls m N (length (scanned st1)) (length (occurrences m (scanned st1))) ls"
      by simp
    then show ?thesis
      using sc c' cont by (simp add: Let_def)
  next
    case False
    with s(6) rest have "\<not> went_on m N (scanned st1)" "st' = st1" by simp_all
    then show ?thesis
      using w sc by (auto simp: Let_def)
  qed
qed

lemma line_calls_all:
  assumes "\<forall>l \<in> set ls. snd (m (line_span l))"
  shows "line_calls m 0 k c ls = zip (map word_of_nat [k..<k + length ls]) (map line_span ls)"
  using assms
proof (induction ls arbitrary: k c)
  case Nil
  then show ?case by simp
next
  case (Cons l ls)
  have "k < k + length (l # ls)" by simp
  then have "[k..<k + length (l # ls)] = k # [Suc k..<k + length (l # ls)]"
    by (rule upt_conv_Cons)
  moreover have "k + length (l # ls) = Suc k + length ls" by simp
  ultimately have u: "[k..<k + length (l # ls)] = k # [Suc k..<Suc k + length ls]"
    by (simp only:)
  from Cons have "line_calls m 0 (Suc k) (c + length (fst (m (line_span l)))) ls
      = zip (map word_of_nat [Suc k..<Suc k + length ls]) (map line_span ls)"
    by simp
  with Cons.prems show ?case
    unfolding u by (simp add: Let_def)
qed

lemma demo_reads:
  "gz_reads demo_env 16 = [''foo'' @ [newline], ''bar'' @ [newline], ''foobar'' @ [newline]]"
  by code_simp

lemma demo_run: "hyperscan demo_env 16 2 0 = Inr demo_outcome"
  by code_simp

lemma demo_capacity: "capacity 2 0 = 2"
  by code_simp

lemma demo_well_configured: "well_configured demo_env 16 2 0"
  unfolding well_configured_def demo_capacity demo_reads
  by (simp add: demo_env_def text_line_def)

lemma quota_run: "hyperscan demo_env 16 2 1 = Inr quota_outcome"
  by code_simp

lemma quota_well_configured: "well_configured demo_env 16 2 1"
proof -
  have "capacity 2 1 = 1" by code_simp
  then show ?thesis
    unfolding well_configured_def demo_reads
    by (simp add: demo_env_def text_line_def)
qed

lemma failing_run: "hyperscan failing_env 16 4 0 = Inr failing_outcome"
  by code_simp

lemma failing_reads: "length (gz_reads failing_env 16) = 3"
  by code_simp

lemma failing_well_configured: "well_configured failing_env 16 4 0"
proof -
  have "capacity 4 0 = 4" by code_simp
  moreover have "gz_reads failing_env 16
      = [''foo'' @ [newline], ''bar'' @ [newline], ''foobar'' @ [newline]]"
    by code_simp
  ultimately show ?thesis
    unfolding well_configured_def
    by (simp add: failing_env_def demo_env_def text_line_def)
qed

lemma hyperscan_no_reads:
  assumes "malloc_state e" "malloc_results e" "\<forall>i < capacity bc N. malloc_line e i"
    "compile_ok e" "scratch_ok e" "gz_reads e bs = []"
  shows "hyperscan e bs bc N =
     Inr (idle_outcome (if gz_file e = None then HYPERSCANNER_GZ_OPEN else 0)
            (capacity bc N) (gz_resources e))"
proof -
  let ?c = "effective_count bc N"
  let ?st = "init_state e ?c"
  let ?n = "nat (sint (max_result_index ?st + 1))"
  have n: "?n = capacity bc N" by (simp add: init_state_def capacity_def)
  have "\<forall>i \<in> set [0..<?n]. malloc_line e i"
    using assms(3) n by simp
  then have "takeWhile (malloc_line e) [0..<?n] = [0..<?n]"
    by (simp only: takeWhile_eq_all_conv)
  then have "length (takeWhile (malloc_line e) [0..<?n]) = length [0..<?n]"
    by (rule arg_cong)
  then have all: "length (takeWhile (malloc_line e) [0..<?n]) = capacity bc N"
    using n by (simp only: length_upt diff_zero)
  have gz: "hyperscan_gz e ?st bs N
      = Inr (if gz_file e = None then HYPERSCANNER_GZ_OPEN else 0, ?st)"
    using assms(6) by (simp add: hyperscan_gz_def Let_def)
  have fl: "flush ?st = ?st" by (simp add: flush_def init_state_def)
  have st: "delivered ?st = []" "scanned ?st = []" by (simp_all add: init_state_def)
  show ?thesis
    using assms(1,2,4,5) all n gz fl st
    by (simp add: hyperscan_def Let_def cleanup_def leave_def idle_outcome_def)
qed

lemma gz_lines_empty: "gz_lines n [] = []"
  by (cases n) (simp_all add: gz_lines.simps)

lemma main_capacity: "capacity 256 0 = 256"
  by code_simp

lemma session_missing:
  "session two_files_world 2 = Inr (idle_outcome HYPERSCANNER_GZ_OPEN 256 [Read_buffer])"
proof -
  let ?e = "demo_env\<lparr>gz_file := None\<rparr>"
  have "hyperscan ?e 65535 256 0 =
     Inr (idle_outcome (if gz_file ?e = None then HYPERSCANNER_GZ_OPEN else 0)
            (capacity 256 0) (gz_resources ?e))"
    by (rule hyperscan_no_reads) (simp_all add: demo_env_def gz_reads_def)
  then show ?thesis
    by (simp add: session_def two_files_world_def main_capacity gz_resources_def demo_env_def)
qed

section \<open>The claims\<close>

text \<open>
  C1, as stated, fails. A line \<^verbatim>\<open>ab\<close>, zero byte, \<^verbatim>\<open>foo\<close> holds an occurrence of the
  pattern \<^verbatim>\<open>foo\<close>, and the session delivers nothing: \<^verbatim>\<open>hs_scan\<close> is given the bytes up to
  the zero byte (\<^verbatim>\<open>strlen\<close>, line 217). And with a quota of 1 the session over the lines
  \<^verbatim>\<open>foo\<close>, \<^verbatim>\<open>bar\<close>, \<^verbatim>\<open>foobar\<close>, which hold four occurrences, delivers the first one only.
\<close>

theorem span_records_differ_from_line_occurrences:
  "gz_reads nul_env 16 = [''ab'' @ [NUL] @ ''foo'' @ [newline]] \<and>
   line_occurrences demo_matcher (gz_reads nul_env 16)
     = [\<lparr>res_id = 0, res_line_number = 0, res_line = ''ab'' @ [NUL] @ ''foo'' @ [newline]\<rparr>] \<and>
   hyperscan nul_env 16 2 0
     = Inr \<lparr>ret = 0, batches = [], calls = [(0, ''ab'')],
            constructed =
              [State_struct, Result_array, Line_buffer 0, Line_buffer 1,
               Database, Scratch, Input_file, Read_buffer],
            released =
              [Input_file, Read_buffer, Line_buffer 0, Line_buffer 1,
               State_struct, Scratch, Database]\<rparr> \<and>
   map (\<lambda>r. (res_id r, res_line_number r)) (line_occurrences demo_matcher (gz_reads demo_env 16))
     = [(0, 0), (1, 1), (0, 2), (1, 2)] \<and>
   hyperscan demo_env 16 2 1 = Inr quota_outcome \<and>
   map (\<lambda>r. (res_id r, res_line_number r)) (concat (map fst (batches quota_outcome)))
     = [(0, 0)]"
proof (intro conjI)
  show "gz_reads nul_env 16 = [''ab'' @ [NUL] @ ''foo'' @ [newline]]"
    by code_simp
  show "line_occurrences demo_matcher (gz_reads nul_env 16)
     = [\<lparr>res_id = 0, res_line_number = 0, res_line = ''ab'' @ [NUL] @ ''foo'' @ [newline]\<rparr>]"
    by code_simp
  show "hyperscan nul_env 16 2 0
     = Inr \<lparr>ret = 0, batches = [], calls = [(0, ''ab'')],
            constructed =
              [State_struct, Result_array, Line_buffer 0, Line_buffer 1,
               Database, Scratch, Input_file, Read_buffer],
            released =
              [Input_file, Read_buffer, Line_buffer 0, Line_buffer 1,
               State_struct, Scratch, Database]\<rparr>"
    by code_simp
  show "map (\<lambda>r. (res_id r, res_line_number r)) (line_occurrences demo_matcher (gz_reads demo_env 16))
     = [(0, 0), (1, 1), (0, 2), (1, 2)]"
    by code_simp
  show "hyperscan demo_env 16 2 1 = Inr quota_outcome" by (rule quota_run)
  show "map (\<lambda>r. (res_id r, res_line_number r)) (concat (map fst (batches quota_outcome)))
     = [(0, 0)]"
    by (simp add: quota_outcome_def)
qed

text \<open>
  C1, amended. When the file opens, the allocations succeed, the patterns compile and
  every read holds a byte other than zero, the session returns, and:
  the calls of \<^verbatim>\<open>hs_scan\<close> are \<open>line_calls\<close> of the reads of the file, that is, read \<open>k\<close> is
  scanned at line number \<open>k\<close> over its span (without its leading zero bytes, up to its
  next zero byte), read after read until a scan fails or the quota is reached;
  the records of the delivered batches, in the order of delivery (full batches from
  within the callback, then the final flush), are exactly the occurrences the matcher
  reports for these calls, in the order of its callbacks, each with the id reported and
  the line number of the call;
  the status is \<^verbatim>\<open>HYPERSCANNER_SCAN\<close> when the last scan failed and 0 otherwise;
  the line numbers of the records never decrease (file of at most \<open>2 ^ 64\<close> reads).
  The reads, one after the other, are the bytes of the file. Without quota and without a
  failing scan every read is scanned.
\<close>

theorem delivered_records_are_span_occurrences:
  "(well_configured e buffer_size buffer_count N \<and> compile_ok e \<and> scratch_ok e \<and>
      malloc_buf e \<and> gz_file e = Some bs \<longrightarrow>
      (\<exists>out. hyperscan e buffer_size buffer_count N = Inr out \<and>
         calls out = line_calls (hs_matcher e) N 0 0 (gz_lines (nat (buffer_size - 1)) bs) \<and>
         concat (map fst (batches out)) = occurrences (hs_matcher e) (calls out) \<and>
         ret out = (if calls out \<noteq> [] \<and> \<not> snd (hs_matcher e (snd (last (calls out))))
                    then HYPERSCANNER_SCAN else 0) \<and>
         (length (gz_lines (nat (buffer_size - 1)) bs) \<le> 18446744073709551616 \<longrightarrow>
            sorted (map (\<lambda>r. unat (res_line_number r)) (concat (map fst (batches out))))))) \<and>
   (1 < buffer_size \<longrightarrow> concat (gz_lines (nat (buffer_size - 1)) bs) = bs) \<and>
   ((\<forall>l \<in> set ls. snd (m (line_span l))) \<longrightarrow>
      line_calls m 0 0 0 ls = zip (map word_of_nat [0..<length ls]) (map line_span ls))"
proof (intro conjI impI)
  assume "1 < buffer_size"
  then show "concat (gz_lines (nat (buffer_size - 1)) bs) = bs"
    by (intro gz_lines_concat) simp
next
  assume "\<forall>l \<in> set ls. snd (m (line_span l))"
  from line_calls_all [OF this, of 0 0]
  show "line_calls m 0 0 0 ls = zip (map word_of_nat [0..<length ls]) (map line_span ls)"
    by simp
next
  let ?m = "hs_matcher e"
  let ?ls = "gz_lines (nat (buffer_size - 1)) bs"
  let ?st0 = "init_state e (effective_count buffer_count N)"
  assume a: "well_configured e buffer_size buffer_count N \<and> compile_ok e \<and> scratch_ok e \<and>
      malloc_buf e \<and> gz_file e = Some bs"
  then have wc: "well_configured e buffer_size buffer_count N" by simp
  from a have reads: "gz_reads e buffer_size = ?ls" by (simp add: gz_reads_def)
  have lines_ok: "\<forall>l \<in> set ?ls. text_line l"
    using gz_reads_text [OF wc] reads by simp
  from hyperscan_defined [OF wc] obtain out where
    run: "hyperscan e buffer_size buffer_count N = Inr out" ..
  note f = hyperscan_Inr [OF run]
  from a wc have "malloc_state e" "malloc_results e"
    "\<forall>i < capacity buffer_count N. malloc_line e i" "compile_ok e" "scratch_ok e"
    by (simp_all add: well_configured_def)
  from hyperscan_scanning [OF this run] obtain r st where
    gz: "hyperscan_gz e ?st0 buffer_size N = Inr (r, st)" and
    o: "ret out = r" "calls out = scanned (flush st)"
    by blast
  from gz reads a have loop: "hyperscan_gz_loop ?m N ?ls
      (map (buf_garbage e) [0..<nat buffer_size]) ?st0 0 = Inr (r, st)"
    by (simp add: hyperscan_gz_def Let_def)
  have sc0: "scanned ?st0 = []" by (simp add: init_state_def)
  have fl: "scanned (flush st) = scanned st" by (simp add: flush_def)
  from hyperscan_gz_loop_calls [OF init_state_head loop lines_ok] sc0
  have calls: "calls out = line_calls ?m N 0 0 ?ls"
    using o(2) fl by (simp add: occurrences_def)
  from hyperscan_gz_loop_Inr [OF init_state_head loop]
  have "exit_inv ?m N 0 r st" by simp
  then have status: "ret out = (if calls out \<noteq> [] \<and> \<not> snd (?m (snd (last (calls out))))
                    then HYPERSCANNER_SCAN else 0)"
    using o fl by (simp add: exit_inv_def)
  have occ: "concat (map fst (batches out)) = occurrences ?m (calls out)"
    using f by simp
  have ordered: "sorted (map (\<lambda>r. unat (res_line_number r)) (concat (map fst (batches out))))"
    if "length ?ls \<le> 18446744073709551616"
  proof -
    have "length (calls out) \<le> length ?ls" using f reads by simp
    then have "length (calls out) \<le> 18446744073709551616" using that by simp
    moreover have "map fst (calls out) = map word_of_nat [0..<length (calls out)]"
      using f by simp
    ultimately have "sorted (map (\<lambda>c. unat (fst c)) (calls out))"
      by (intro line_numbers_sorted)
    then show ?thesis
      using occurrences_line_numbers [of "calls out" ?m] occ by simp
  qed
  from run calls occ status ordered
  show "\<exists>out. hyperscan e buffer_size buffer_count N = Inr out \<and>
         calls out = line_calls ?m N 0 0 ?ls \<and>
         concat (map fst (batches out)) = occurrences ?m (calls out) \<and>
         ret out = (if calls out \<noteq> [] \<and> \<not> snd (?m (snd (last (calls out))))
                    then HYPERSCANNER_SCAN else 0) \<and>
         (length ?ls \<le> 18446744073709551616 \<longrightarrow>
            sorted (map (\<lambda>r. unat (res_line_number r)) (concat (map fst (batches out)))))"
    by blast
qed

text \<open>The session over the three lines \<^verbatim>\<open>foo\<close>, \<^verbatim>\<open>bar\<close>, \<^verbatim>\<open>foobar\<close>, without quota.\<close>

theorem delivered_records_are_span_occurrences_witness:
  "well_configured demo_env 16 2 0 \<and> compile_ok demo_env \<and> scratch_ok demo_env \<and>
   malloc_buf demo_env \<and>
   gz_file demo_env = Some (''foo'' @ [newline] @ ''bar'' @ [newline] @ ''foobar'' @ [newline]) \<and>
   hyperscan demo_env 16 2 0 = Inr demo_outcome \<and>
   calls demo_outcome
     = line_calls demo_matcher 0 0 0 [''foo'' @ [newline], ''bar'' @ [newline], ''foobar'' @ [newline]] \<and>
   concat (map fst (batches demo_outcome)) = occurrences demo_matcher (calls demo_outcome) \<and>
   ret demo_outcome = 0 \<and>
   sorted (map (\<lambda>r. unat (res_line_number r)) (concat (map fst (batches demo_outcome)))) \<and>
   concat (gz_lines (nat (16 - 1)) (''foo'' @ [newline] @ ''bar'' @ [newline] @ ''foobar'' @ [newline]))
     = ''foo'' @ [newline] @ ''bar'' @ [newline] @ ''foobar'' @ [newline] \<and>
   line_calls demo_matcher 0 0 0 [''foo'' @ [newline], ''bar'' @ [newline], ''foobar'' @ [newline]]
     = [(0, ''foo'' @ [newline]), (1, ''bar'' @ [newline]), (2, ''foobar'' @ [newline])]"
proof -
  let ?bs = "''foo'' @ [newline] @ ''bar'' @ [newline] @ ''foobar'' @ [newline]"
  have a: "well_configured demo_env 16 2 0 \<and> compile_ok demo_env \<and> scratch_ok demo_env \<and>
      malloc_buf demo_env \<and> gz_file demo_env = Some ?bs"
    using demo_well_configured by (simp add: demo_env_def)
  have m: "hs_matcher demo_env = demo_matcher" by (simp add: demo_env_def)
  have ls: "gz_lines (nat (16 - 1)) ?bs
      = [''foo'' @ [newline], ''bar'' @ [newline], ''foobar'' @ [newline]]"
    by code_simp
  from delivered_records_are_span_occurrences
    [of demo_env 16 2 0 ?bs, THEN conjunct1, THEN mp, OF a]
  obtain out where o: "hyperscan demo_env 16 2 0 = Inr out"
    "calls out = line_calls (hs_matcher demo_env) 0 0 0 (gz_lines (nat (16 - 1)) ?bs)"
    "concat (map fst (batches out)) = occurrences (hs_matcher demo_env) (calls out)"
    "length (gz_lines (nat (16 - 1)) ?bs) \<le> 18446744073709551616 \<longrightarrow>
       sorted (map (\<lambda>r. unat (res_line_number r)) (concat (map fst (batches out))))"
    by blast
  from o(1) demo_run have out: "out = demo_outcome" by simp
  have "calls demo_outcome
     = line_calls demo_matcher 0 0 0 [''foo'' @ [newline], ''bar'' @ [newline], ''foobar'' @ [newline]]"
    using o(2) out m ls by (simp only:)
  moreover have "concat (map fst (batches demo_outcome)) = occurrences demo_matcher (calls demo_outcome)"
    using o(3) out m by (simp only:)
  moreover have "sorted (map (\<lambda>r. unat (res_line_number r)) (concat (map fst (batches demo_outcome))))"
    using o(4) out ls by simp
  moreover have "ret demo_outcome = 0" by (simp add: demo_outcome_def)
  moreover have "concat (gz_lines (nat (16 - 1)) ?bs) = ?bs"
    using delivered_records_are_span_occurrences
      [of _ 16 _ _ ?bs, THEN conjunct2, THEN conjunct1]
    by simp
  moreover have "line_calls demo_matcher 0 0 0
      [''foo'' @ [newline], ''bar'' @ [newline], ''foobar'' @ [newline]]
     = [(0, ''foo'' @ [newline]), (1, ''bar'' @ [newline]), (2, ''foobar'' @ [newline])]"
  proof -
    let ?ls = "[''foo'' @ [newline], ''bar'' @ [newline], ''foobar'' @ [newline]]"
    have ok: "\<forall>l \<in> set ?ls. snd (demo_matcher (line_span l))"
      by code_simp
    have "zip (map word_of_nat [0..<length ?ls]) (map line_span ?ls)
        = [(0 :: 64 word, ''foo'' @ [newline]), (1, ''bar'' @ [newline]), (2, ''foobar'' @ [newline])]"
      by code_simp
    with delivered_records_are_span_occurrences
      [of _ _ _ _ _ ?ls demo_matcher, THEN conjunct2, THEN conjunct2, THEN mp, OF ok]
    show ?thesis by (simp only:)
  qed
  ultimately show ?thesis
    using a demo_run by (simp only: simp_thms)
qed

text \<open>
  C2. With a \<^verbatim>\<open>buffer_count\<close> of at least 1, every call of \<^verbatim>\<open>on_event\<close> passes a count
  between 1 and \<^verbatim>\<open>buffer_count\<close>, the number of records it delivers, and every call
  but the last passes as many records as there are slots. In the callback a delivery
  happens when the slot just filled is the last one: it passes every slot and sets
  \<^verbatim>\<open>result_index\<close> back to \<open>- 1\<close>. The final flush does nothing when \<^verbatim>\<open>result_index\<close> is
  \<open>- 1\<close>. A well configured session returns.
\<close>

theorem batch_counts_within_capacity:
  "(well_configured e buffer_size buffer_count N \<longrightarrow>
      (\<exists>out. hyperscan e buffer_size buffer_count N = Inr out)) \<and>
   (\<forall>out. hyperscan e buffer_size buffer_count N = Inr out \<and> 0 < sint buffer_count \<longrightarrow>
      (\<forall>d \<in> set (batches out).
         1 \<le> snd d \<and> snd d \<le> sint buffer_count \<and> snd d = int (length (fst d))) \<and>
      (\<forall>d \<in> set (butlast (batches out)). length (fst d) = capacity buffer_count N)) \<and>
   (\<forall>i st st'. ring_ok st \<and> hs_callback i st = Inr st' \<and>
        result_index st + 1 = max_result_index st \<longrightarrow>
      delivered st' = delivered st @ [(results st', int (length (results st')))] \<and>
      result_index st' = - 1) \<and>
   (\<forall>st. result_index st = - 1 \<longrightarrow> flush st = st)"
proof (intro conjI allI impI ballI)
  assume "well_configured e buffer_size buffer_count N"
  then show "\<exists>out. hyperscan e buffer_size buffer_count N = Inr out"
    by (rule hyperscan_defined)
next
  fix out d
  assume run: "hyperscan e buffer_size buffer_count N = Inr out \<and> 0 < sint buffer_count"
  then have ok: "batches_ok (capacity buffer_count N) (batches out)"
    using hyperscan_Inr [of e buffer_size buffer_count N out] by simp
  have le: "capacity buffer_count N \<le> nat (sint buffer_count)"
    using run capacity_le [of buffer_count N] by simp
  {
    assume "d \<in> set (batches out)"
    with ok have d: "snd d = int (length (fst d))" "1 \<le> length (fst d)"
      "length (fst d) \<le> capacity buffer_count N"
      by (simp_all add: batches_ok_def)
    then show "1 \<le> snd d" "snd d \<le> sint buffer_count" "snd d = int (length (fst d))"
      using le by simp_all
  }
  {
    assume "d \<in> set (butlast (batches out))"
    with ok show "length (fst d) = capacity buffer_count N"
      by (simp add: batches_ok_def)
  }
next
  fix i st st'
  assume a: "ring_ok st \<and> hs_callback i st = Inr st' \<and> result_index st + 1 = max_result_index st"
  then have "delivered st' = delivered st @ [(results st', int (length (results st')))] \<and>
      result_index st' = - 1"
    using hs_callback_delivery [of st i st'] by simp
  then show "delivered st' = delivered st @ [(results st', int (length (results st')))]"
    "result_index st' = - 1"
    by simp_all
next
  fix st :: hyperscanner_state
  assume "result_index st = - 1"
  then show "flush st = st" by (simp add: flush_def)
qed

text \<open>The scenario with two slots: both batches have two records.\<close>

theorem batch_counts_within_capacity_witness:
  "well_configured demo_env 16 2 0 \<and> hyperscan demo_env 16 2 0 = Inr demo_outcome \<and>
   (0 :: int) < sint (2 :: 32 word) \<and>
   list_all (\<lambda>d. 1 \<le> snd d \<and> snd d \<le> 2 \<and> snd d = int (length (fst d))) (batches demo_outcome)"
proof -
  have pos: "(0 :: int) < sint (2 :: 32 word)" by simp
  note f = batch_counts_within_capacity
    [of demo_env 16 2 0, THEN conjunct2, THEN conjunct1, THEN spec, THEN mp,
     OF conjI [OF demo_run pos], THEN conjunct1]
  have "sint (2 :: 32 word) = 2" by simp
  with f have "\<forall>d \<in> set (batches demo_outcome).
      1 \<le> snd d \<and> snd d \<le> 2 \<and> snd d = int (length (fst d))"
    by (simp only:)
  then have "list_all (\<lambda>d. 1 \<le> snd d \<and> snd d \<le> 2 \<and> snd d = int (length (fst d)))
      (batches demo_outcome)"
    by (simp only: list_all_iff)
  then show ?thesis
    using demo_run demo_well_configured pos by simp
qed

text \<open>
  C3. What the code does where the claim fails. When the allocation of the state, of
  the result array or of a line buffer fails, \<^verbatim>\<open>goto cleanup\<close> has jumped over the
  initialisers of \<^verbatim>\<open>results_allocated\<close>, \<^verbatim>\<open>db\<close> and \<^verbatim>\<open>scratch\<close>, and the block at
  \<^verbatim>\<open>cleanup:\<close> reads them. On the other paths, the successful one included, the result
  array is constructed and never released.
\<close>

theorem cleanup_leaks_array_and_reads_unset_locals:
  "hyperscan (demo_env\<lparr>malloc_state := False\<rparr>) 16 2 0
     = Inl (Indeterminate_local ''results_allocated'') \<and>
   hyperscan (demo_env\<lparr>malloc_results := False\<rparr>) 16 2 0
     = Inl (Indeterminate_local ''results_allocated'') \<and>
   hyperscan (demo_env\<lparr>malloc_line := (\<lambda>i. i < 1)\<rparr>) 16 2 0
     = Inl (Indeterminate_local ''scratch'') \<and>
   hyperscan (demo_env\<lparr>compile_ok := False\<rparr>) 16 2 0
     = Inr \<lparr>ret = HYPERSCANNER_DB, batches = [], calls = [],
            constructed = [State_struct, Result_array, Line_buffer 0, Line_buffer 1],
            released = [Line_buffer 0, Line_buffer 1, State_struct]\<rparr> \<and>
   hyperscan (demo_env\<lparr>scratch_ok := False\<rparr>) 16 2 0
     = Inr \<lparr>ret = HYPERSCANNER_SCRATCH, batches = [], calls = [],
            constructed = [State_struct, Result_array, Line_buffer 0, Line_buffer 1, Database],
            released = [Line_buffer 0, Line_buffer 1, State_struct, Database]\<rparr> \<and>
   hyperscan demo_env 16 2 0 = Inr demo_outcome \<and>
   Result_array \<in> set (constructed demo_outcome) \<and>
   Result_array \<notin> set (released demo_outcome)"
proof (intro conjI)
  show "hyperscan (demo_env\<lparr>malloc_state := False\<rparr>) 16 2 0
     = Inl (Indeterminate_local ''results_allocated'')"
    by code_simp
  show "hyperscan (demo_env\<lparr>malloc_results := False\<rparr>) 16 2 0
     = Inl (Indeterminate_local ''results_allocated'')"
    by code_simp
  show "hyperscan (demo_env\<lparr>malloc_line := (\<lambda>i. i < 1)\<rparr>) 16 2 0
     = Inl (Indeterminate_local ''scratch'')"
    by code_simp
  show "hyperscan (demo_env\<lparr>compile_ok := False\<rparr>) 16 2 0
     = Inr \<lparr>ret = HYPERSCANNER_DB, batches = [], calls = [],
            constructed = [State_struct, Result_array, Line_buffer 0, Line_buffer 1],
            released = [Line_buffer 0, Line_buffer 1, State_struct]\<rparr>"
    by code_simp
  show "hyperscan (demo_env\<lparr>scratch_ok := False\<rparr>) 16 2 0
     = Inr \<lparr>ret = HYPERSCANNER_SCRATCH, batches = [], calls = [],
            constructed = [State_struct, Result_array, Line_buffer 0, Line_buffer 1, Database],
            released = [Line_buffer 0, Line_buffer 1, State_struct, Database]\<rparr>"
    by code_simp
  show "hyperscan demo_env 16 2 0 = Inr demo_outcome" by (rule demo_run)
  show "Result_array \<in> set (constructed demo_outcome)"
    "Result_array \<notin> set (released demo_outcome)"
    by (simp_all add: demo_outcome_def)
qed

text \<open>
  C4. What the code does where the claim fails. With one file the driver runs its
  session and returns its status. With two files the second turn of the loop stores at
  index 1 of \<^verbatim>\<open>pattern_flags\<close> and \<^verbatim>\<open>pattern_ids\<close>, arrays of one element (lines 350 and
  351): the behaviour is undefined before the session of the second file starts, so
  that neither a session per file nor a status is guaranteed. Without a file the driver
  returns \<open>- 1\<close>.
\<close>

theorem driver_faults_from_second_file:
  "main two_files_world [''hyperscanner'', ''foo'', ''missing.gz'']
     = Inr (HYPERSCANNER_GZ_OPEN, [idle_outcome HYPERSCANNER_GZ_OPEN 256 [Read_buffer]]) \<and>
   main two_files_world two_files_argv = Inl Array_out_of_bounds \<and>
   main two_files_world [''hyperscanner'', ''foo''] = Inr (- 1, [])"
proof (intro conjI)
  have one: "[2..<3] = [2 :: nat]" by code_simp
  have two: "[2..<4] = [2, 3 :: nat]" by code_simp
  have in0: "\<not> (int 2 - 2 < 0 \<or> 1 \<le> int 2 - 2)"
    and out1: "int 3 - 2 < 0 \<or> 1 \<le> int 3 - 2" by simp_all
  have len: "length [''hyperscanner'', ''foo'', ''missing.gz''] = 3" by simp
  have "main two_files_world [''hyperscanner'', ''foo'', ''missing.gz'']
      = main_loop two_files_world [2..<3] 0 []"
    unfolding main_def len by (simp only: less_irrefl if_False)
  also have "\<dots> = Inr (ret (idle_outcome HYPERSCANNER_GZ_OPEN 256 [Read_buffer]),
      [] @ [idle_outcome HYPERSCANNER_GZ_OPEN 256 [Read_buffer]])"
    by (simp only: one main_loop.simps in0 session_missing sum.case if_False)
  finally show "main two_files_world [''hyperscanner'', ''foo'', ''missing.gz'']
     = Inr (HYPERSCANNER_GZ_OPEN, [idle_outcome HYPERSCANNER_GZ_OPEN 256 [Read_buffer]])"
    by (simp add: idle_outcome_def)
  have "length two_files_argv = 4" by (simp add: two_files_argv_def)
  moreover have "\<not> (4 :: nat) < 3" by simp
  ultimately have "main two_files_world two_files_argv = main_loop two_files_world [2..<4] 0 []"
    unfolding main_def by (simp only: if_False)
  also have "\<dots> = main_loop two_files_world [3]
      (ret (idle_outcome HYPERSCANNER_GZ_OPEN 256 [Read_buffer]))
      ([] @ [idle_outcome HYPERSCANNER_GZ_OPEN 256 [Read_buffer]])"
    by (simp only: two main_loop.simps in0 session_missing sum.case if_False)
  also have "\<dots> = Inl Array_out_of_bounds"
    by simp
  finally show "main two_files_world two_files_argv = Inl Array_out_of_bounds" .
  show "main two_files_world [''hyperscanner'', ''foo''] = Inr (- 1, [])"
    by (simp add: main_def)
qed

text \<open>
  C5. What the code does where the claim fails. With a \<^verbatim>\<open>buffer_count\<close> of 0 and an
  allocation of size 0 that does not return null, the ring has no slot and the session
  goes on: the first match indexes slot 0 of the empty ring, and a file without
  matches is opened, scanned line by line and answered with 0.
\<close>

theorem zero_buffer_count_is_not_rejected:
  "length (results (init_state demo_env (effective_count 0 0))) = 0 \<and>
   hyperscan demo_env 16 0 0 = Inl Slot_out_of_bounds \<and>
   hyperscan (demo_env\<lparr>hs_matcher := (\<lambda>s. ([], True))\<rparr>) 16 0 0
     = Inr \<lparr>ret = 0, batches = [],
            calls = [(0, ''foo'' @ [newline]), (1, ''bar'' @ [newline]), (2, ''foobar'' @ [newline])],
            constructed = [State_struct, Result_array, Database, Scratch, Input_file, Read_buffer],
            released = [Input_file, Read_buffer, State_struct, Scratch, Database]\<rparr>"
proof (intro conjI)
  show "length (results (init_state demo_env (effective_count 0 0))) = 0"
    by code_simp
  show "hyperscan demo_env 16 0 0 = Inl Slot_out_of_bounds"
    by code_simp
  show "hyperscan (demo_env\<lparr>hs_matcher := (\<lambda>s. ([], True))\<rparr>) 16 0 0
     = Inr \<lparr>ret = 0, batches = [],
            calls = [(0, ''foo'' @ [newline]), (1, ''bar'' @ [newline]), (2, ''foobar'' @ [newline])],
            constructed = [State_struct, Result_array, Database, Scratch, Input_file, Read_buffer],
            released = [Input_file, Read_buffer, State_struct, Scratch, Database]\<rparr>"
    by code_simp
qed

text \<open>
  C6. What the code does where the claim fails. The file is the line \<^verbatim>\<open>abcdef\<close>
  followed by one zero byte. The second read is that zero byte alone; the search for a
  non-zero byte runs past its terminator, into what the first read left in the buffer,
  and the span handed to the matcher as line 1 is \<^verbatim>\<open>cdef\<close> with its newline.
\<close>

theorem stale_bytes_scanned_after_null_read:
  "gz_reads stale_env 16 = [''abcdef'' @ [newline], [NUL]] \<and>
   hyperscan stale_env 16 2 0
     = Inr \<lparr>ret = 0,
            batches =
              [([\<lparr>res_id = 0, res_line_number = 0, res_line = ''abcdef'' @ [newline]\<rparr>,
                 \<lparr>res_id = 0, res_line_number = 1, res_line = ''cdef'' @ [newline]\<rparr>], 2)],
            calls = [(0, ''abcdef'' @ [newline]), (1, ''cdef'' @ [newline])],
            constructed =
              [State_struct, Result_array, Line_buffer 0, Line_buffer 1,
               Database, Scratch, Input_file, Read_buffer],
            released =
              [Input_file, Read_buffer, Line_buffer 0, Line_buffer 1,
               State_struct, Scratch, Database]\<rparr>"
proof (intro conjI)
  show "gz_reads stale_env 16 = [''abcdef'' @ [newline], [NUL]]"
    by code_simp
  show "hyperscan stale_env 16 2 0
     = Inr \<lparr>ret = 0,
            batches =
              [([\<lparr>res_id = 0, res_line_number = 0, res_line = ''abcdef'' @ [newline]\<rparr>,
                 \<lparr>res_id = 0, res_line_number = 1, res_line = ''cdef'' @ [newline]\<rparr>], 2)],
            calls = [(0, ''abcdef'' @ [newline]), (1, ''cdef'' @ [newline])],
            constructed =
              [State_struct, Result_array, Line_buffer 0, Line_buffer 1,
               Database, Scratch, Input_file, Read_buffer],
            released =
              [Input_file, Read_buffer, Line_buffer 0, Line_buffer 1,
               State_struct, Scratch, Database]\<rparr>"
    by code_simp
qed

text \<open>
  C7. With a quota \<open>N > 0\<close>, and as long as the 64-bit match counter does not wrap: a
  call of \<^verbatim>\<open>hs_scan\<close> after which the matches so far number \<open>N\<close> or more is the last
  call of the session, and the records delivered are the matches of all calls, fewer
  than \<open>N\<close> plus the matches of the last call. A well configured session returns.
\<close>

theorem quota_ends_scan_at_crossing_line:
  "(well_configured e buffer_size buffer_count N \<longrightarrow>
      (\<exists>out. hyperscan e buffer_size buffer_count N = Inr out)) \<and>
   (\<forall>out. 0 < N \<and> hyperscan e buffer_size buffer_count N = Inr out \<and>
        length (occurrences (hs_matcher e) (calls out)) < 18446744073709551616 \<longrightarrow>
      (\<forall>k. k < length (calls out) \<and>
           unat N \<le> length (occurrences (hs_matcher e) (take (Suc k) (calls out))) \<longrightarrow>
         Suc k = length (calls out)) \<and>
      length (concat (map fst (batches out))) = length (occurrences (hs_matcher e) (calls out)) \<and>
      length (concat (map fst (batches out)))
        < unat N + (if calls out = [] then 0
                    else length (fst (hs_matcher e (snd (last (calls out)))))))"
proof (intro conjI impI allI)
  assume "well_configured e buffer_size buffer_count N"
  then show "\<exists>out. hyperscan e buffer_size buffer_count N = Inr out"
    by (rule hyperscan_defined)
next
  fix out
  let ?m = "hs_matcher e"
  assume a: "0 < N \<and> hyperscan e buffer_size buffer_count N = Inr out \<and>
     length (occurrences ?m (calls out)) < 18446744073709551616"
  then have run: "hyperscan e buffer_size buffer_count N = Inr out" and N: "0 < N"
    and nowrap: "length (occurrences ?m (calls out)) < 18446744073709551616"
    by simp_all
  note f = hyperscan_Inr [OF run]
  have before: "length (occurrences ?m (take k (calls out))) < unat N"
    if "0 < k" "k < length (calls out)" for k
  proof -
    from f that have "went_on ?m N (take k (calls out))" by simp
    then have x: "\<not> (0 < N \<and> N \<le> word_of_nat (length (occurrences ?m (take k (calls out)))))"
      by (simp add: went_on_def)
    have y: "length (occurrences ?m (take k (calls out))) < 18446744073709551616"
      using occurrences_take_le [of ?m k "calls out"] nowrap by simp
    show ?thesis by (rule below_quota [OF x N y])
  qed
  show total: "length (concat (map fst (batches out))) = length (occurrences ?m (calls out))"
    using f by simp
  {
    fix k
    assume k: "k < length (calls out) \<and>
      unat N \<le> length (occurrences ?m (take (Suc k) (calls out)))"
    show "Suc k = length (calls out)"
    proof (rule ccontr)
      assume "Suc k \<noteq> length (calls out)"
      with k have "Suc k < length (calls out)" by simp
      from before [OF _ this] k show False by simp
    qed
  }
  show "length (concat (map fst (batches out)))
        < unat N + (if calls out = [] then 0 else length (fst (?m (snd (last (calls out))))))"
  proof (cases "calls out = []")
    case True
    have "0 < unat N" using N by (simp add: word_less_nat_alt)
    moreover have "length (occurrences ?m (calls out)) = 0"
      using True by (simp add: occurrences_def)
    ultimately show ?thesis using True total by (simp only: if_True add_0_right)
  next
    case False
    note split = occurrences_snoc [OF False, of ?m]
    have "length (occurrences ?m (butlast (calls out))) < unat N"
    proof (cases "length (calls out) = 1")
      case True
      then have "butlast (calls out) = []" by (cases "calls out") simp_all
      moreover have "0 < unat N" using N by (simp add: word_less_nat_alt)
      ultimately show ?thesis by (simp add: occurrences_def)
    next
      case one: False
      with False have "0 < length (calls out) - 1" "length (calls out) - 1 < length (calls out)"
        by (cases "calls out"; simp)+
      from before [OF this] show ?thesis by (simp add: butlast_conv_take)
    qed
    with split total False show ?thesis by simp
  qed
qed

text \<open>The scenario with a quota of one: one call for three reads, one record.\<close>

theorem quota_ends_scan_at_crossing_line_witness:
  "(0 :: 64 word) < 1 \<and> well_configured demo_env 16 2 1 \<and>
   hyperscan demo_env 16 2 1 = Inr quota_outcome \<and>
   length (gz_reads demo_env 16) = 3 \<and> length (calls quota_outcome) = 1 \<and>
   length (concat (map fst (batches quota_outcome))) = 1"
proof -
  have m: "hs_matcher demo_env = demo_matcher" by (simp add: demo_env_def)
  have occ: "length (occurrences (hs_matcher demo_env) (calls quota_outcome)) = 1"
    by (simp add: m quota_outcome_def occurrences_def demo_matcher_def)
  have a: "(0 :: 64 word) < 1 \<and> hyperscan demo_env 16 2 1 = Inr quota_outcome \<and>
      length (occurrences (hs_matcher demo_env) (calls quota_outcome)) < 18446744073709551616"
    using quota_run occ by simp
  note f = quota_ends_scan_at_crossing_line
    [of demo_env 16 2 1, THEN conjunct2, THEN spec, THEN mp, OF a]
  have "length (concat (map fst (batches quota_outcome))) = 1"
    using f occ by simp
  moreover have "length (calls quota_outcome) = 1" by (simp add: quota_outcome_def)
  ultimately show ?thesis
    using quota_run quota_well_configured by (simp add: demo_reads)
qed

text \<open>
  C8. A call of \<^verbatim>\<open>hs_scan\<close> that fails is the last call of the session: no later
  line is scanned. The session returns \<^verbatim>\<open>HYPERSCANNER_SCAN\<close>, and the batches delivered,
  the final flush included, hold the occurrences of every call made, those of the
  failing call too. A well configured session returns.
\<close>

theorem scan_failure_ends_file_and_flushes:
  "(well_configured e buffer_size buffer_count N \<longrightarrow>
      (\<exists>out. hyperscan e buffer_size buffer_count N = Inr out)) \<and>
   (\<forall>out k. hyperscan e buffer_size buffer_count N = Inr out \<and> k < length (calls out) \<and>
        \<not> snd (hs_matcher e (snd (calls out ! k))) \<longrightarrow>
      Suc k = length (calls out) \<and>
      ret out = HYPERSCANNER_SCAN \<and>
      concat (map fst (batches out)) = occurrences (hs_matcher e) (calls out))"
proof (intro conjI impI allI)
  assume "well_configured e buffer_size buffer_count N"
  then show "\<exists>out. hyperscan e buffer_size buffer_count N = Inr out"
    by (rule hyperscan_defined)
next
  fix out k
  let ?m = "hs_matcher e"
  assume a: "hyperscan e buffer_size buffer_count N = Inr out \<and> k < length (calls out) \<and>
        \<not> snd (?m (snd (calls out ! k)))"
  then have run: "hyperscan e buffer_size buffer_count N = Inr out" by simp
  note f = hyperscan_Inr [OF run]
  show last: "Suc k = length (calls out)"
  proof (rule ccontr)
    assume "Suc k \<noteq> length (calls out)"
    with a have k: "Suc k < length (calls out)" by simp
    with f have "went_on ?m N (take (Suc k) (calls out))" by simp
    then have "snd (?m (snd (last (take (Suc k) (calls out)))))" by (simp add: went_on_def)
    moreover have "last (take (Suc k) (calls out)) = calls out ! k"
      using k by (simp add: take_Suc_conv_app_nth)
    ultimately show False using a by simp
  qed
  then have ne: "calls out \<noteq> []" by auto
  then have "last (calls out) = calls out ! (length (calls out) - 1)"
    by (rule last_conv_nth)
  with last have "last (calls out) = calls out ! k" by (simp flip: last)
  with f a ne show "ret out = HYPERSCANNER_SCAN" by simp
  show "concat (map fst (batches out)) = occurrences ?m (calls out)"
    using f by simp
qed

text \<open>The scan fails on the second of three lines, with two records waiting.\<close>

theorem scan_failure_ends_file_and_flushes_witness:
  "well_configured failing_env 16 4 0 \<and>
   hyperscan failing_env 16 4 0 = Inr failing_outcome \<and>
   length (gz_reads failing_env 16) = 3 \<and>
   \<not> snd (hs_matcher failing_env (snd (calls failing_outcome ! 1))) \<and>
   length (calls failing_outcome) = 2 \<and>
   ret failing_outcome = HYPERSCANNER_SCAN \<and>
   concat (map fst (batches failing_outcome)) =
     [\<lparr>res_id = 0, res_line_number = 0, res_line = ''foo'' @ [newline]\<rparr>,
      \<lparr>res_id = 1, res_line_number = 1, res_line = ''bar'' @ [newline]\<rparr>] \<and>
   concat (map fst (batches failing_outcome)) =
     occurrences (hs_matcher failing_env) (calls failing_outcome)"
proof -
  have bad: "\<not> snd (hs_matcher failing_env (snd (calls failing_outcome ! 1)))"
    by (simp add: failing_env_def failing_outcome_def)
  have k: "(1 :: nat) < length (calls failing_outcome)"
    by (simp add: failing_outcome_def)
  note f = scan_failure_ends_file_and_flushes
    [of failing_env 16 4 0, THEN conjunct2, THEN spec, THEN spec, THEN mp,
     OF conjI [OF failing_run conjI [OF k bad]]]
  have "length (calls failing_outcome) = 2" using f by simp
  moreover have "ret failing_outcome = HYPERSCANNER_SCAN" using f by simp
  moreover have "concat (map fst (batches failing_outcome)) =
     occurrences (hs_matcher failing_env) (calls failing_outcome)"
    using f by simp
  moreover have "concat (map fst (batches failing_outcome)) =
     [\<lparr>res_id = 0, res_line_number = 0, res_line = ''foo'' @ [newline]\<rparr>,
      \<lparr>res_id = 1, res_line_number = 1, res_line = ''bar'' @ [newline]\<rparr>]"
    by (simp add: failing_outcome_def)
  ultimately show ?thesis
    using bad failing_run failing_reads failing_well_configured by simp
qed



text \<open>
  C10. When the quota is positive and below \<^verbatim>\<open>buffer_count\<close>, the session allocates as
  many slots as the quota says: every batch has at most that many records, every batch
  but the last has exactly that many, and once that many occurrences are reported the
  first batch is made of the first of them. A well configured session returns.
\<close>

theorem quota_lowers_batch_capacity:
  "(well_configured e buffer_size buffer_count N \<longrightarrow>
      (\<exists>out. hyperscan e buffer_size buffer_count N = Inr out)) \<and>
   (0 < N \<and> unat N < nat (sint buffer_count) \<longrightarrow>
      effective_count buffer_count N = ucast N \<and>
      length (results (init_state e (effective_count buffer_count N))) = unat N \<and>
      (\<forall>out. hyperscan e buffer_size buffer_count N = Inr out \<longrightarrow>
         (\<forall>d \<in> set (batches out). snd d = int (length (fst d)) \<and> length (fst d) \<le> unat N) \<and>
         (\<forall>d \<in> set (butlast (batches out)). length (fst d) = unat N) \<and>
         (unat N \<le> length (occurrences (hs_matcher e) (calls out)) \<longrightarrow>
            batches out \<noteq> [] \<and>
            fst (hd (batches out)) = take (unat N) (occurrences (hs_matcher e) (calls out)))))"
proof (intro conjI impI allI)
  assume "well_configured e buffer_size buffer_count N"
  then show "\<exists>out. hyperscan e buffer_size buffer_count N = Inr out"
    by (rule hyperscan_defined)
next
  assume q: "0 < N \<and> unat N < nat (sint buffer_count)"
  then have eff: "effective_count buffer_count N = ucast N"
    and cap: "capacity buffer_count N = unat N"
    using effective_count_quota [of N buffer_count] by simp_all
  show "effective_count buffer_count N = ucast N" by (rule eff)
  show "length (results (init_state e (effective_count buffer_count N))) = unat N"
    using cap by (simp add: init_state_results capacity_def)
  have pos: "0 < unat N" using q by (simp add: word_less_nat_alt)
  fix out
  assume run: "hyperscan e buffer_size buffer_count N = Inr out"
  note f = hyperscan_Inr [OF run]
  from f cap have ok: "batches_ok (unat N) (batches out)" by simp
  then show "\<forall>d \<in> set (batches out). snd d = int (length (fst d)) \<and> length (fst d) \<le> unat N"
    and "\<forall>d \<in> set (butlast (batches out)). length (fst d) = unat N"
    by (simp_all add: batches_ok_def)
  assume "unat N \<le> length (occurrences (hs_matcher e) (calls out))"
  then have "unat N \<le> length (concat (map fst (batches out)))" using f by simp
  from first_batch [OF ok pos this] f
  show "batches out \<noteq> []"
    "fst (hd (batches out)) = take (unat N) (occurrences (hs_matcher e) (calls out))"
    by simp_all
qed

text \<open>The scenario with two slots configured and a quota of one.\<close>

theorem quota_lowers_batch_capacity_witness:
  "(0 :: 64 word) < 1 \<and> unat (1 :: 64 word) < nat (sint (2 :: 32 word)) \<and>
   well_configured demo_env 16 2 1 \<and>
   hyperscan demo_env 16 2 1 = Inr quota_outcome \<and>
   effective_count 2 1 = 1 \<and>
   batches quota_outcome \<noteq> [] \<and>
   fst (hd (batches quota_outcome)) = take 1 (occurrences demo_matcher (calls quota_outcome))"
proof -
  have q: "(0 :: 64 word) < 1 \<and> unat (1 :: 64 word) < nat (sint (2 :: 32 word))" by simp
  have m: "hs_matcher demo_env = demo_matcher" by (simp add: demo_env_def)
  have n: "unat (1 :: 64 word) \<le> length (occurrences (hs_matcher demo_env) (calls quota_outcome))"
    by (simp add: m quota_outcome_def occurrences_def demo_matcher_def)
  note f = quota_lowers_batch_capacity
    [of demo_env 16 2 1, THEN conjunct2, THEN mp, OF q]
  note g = f [THEN conjunct2, THEN conjunct2, THEN spec, THEN mp, OF quota_run,
    THEN conjunct2, THEN conjunct2, THEN mp, OF n]
  have "effective_count 2 1 = 1" using f by simp
  moreover have "batches quota_outcome \<noteq> []" using g by simp
  moreover have "fst (hd (batches quota_outcome))
      = take 1 (occurrences demo_matcher (calls quota_outcome))"
    using g m by simp
  ultimately show ?thesis
    using q quota_run quota_well_configured by simp
qed

end
